theory Spec2Isabelle
  imports Main "HOL-Library.Word"
begin

unbundle bit_operations_syntax

section \<open>JavaScript numbers and typed arrays\<close>

text \<open>
  The decoder (\<^verbatim>\<open>src/MidiParser.js\<close>) and the encoder (\<^verbatim>\<open>exportToMidiFile\<close>) compute
  with JavaScript numbers. Every number on the paths modelled here is an integer or
  \<^verbatim>\<open>NaN\<close> (\<^verbatim>\<open>0 + undefined\<close>, the result of reading a typed array out of range and
  adding it), so a number is an unbounded integer or \<open>NaN\<close>; integers are taken to stay
  below \<open>2 ^ 53\<close>, where doubles are exact. The bitwise operators first convert their
  operands with \<^verbatim>\<open>ToInt32\<close>, which wraps to signed 32 bits and sends \<^verbatim>\<open>NaN\<close> and
  \<^verbatim>\<open>undefined\<close> to 0.
\<close>

type_synonym byte = "8 word"

datatype jsnum = Num int | NaN

definition wrap32 :: "int \<Rightarrow> int" where
  "wrap32 x = (x + 2 ^ 31) mod 2 ^ 32 - 2 ^ 31"

fun ToInt32 :: "jsnum \<Rightarrow> int" where
  "ToInt32 NaN = 0"
| "ToInt32 (Num x) = wrap32 x"

definition js_and :: "jsnum \<Rightarrow> int \<Rightarrow> int" where
  \<comment> \<open>\<^verbatim>\<open>a & b\<close>\<close>
  "js_and a b = ToInt32 a AND wrap32 b"

definition js_or :: "jsnum \<Rightarrow> int \<Rightarrow> int" where
  \<comment> \<open>\<^verbatim>\<open>a | b\<close>\<close>
  "js_or a b = ToInt32 a OR wrap32 b"

definition js_shl :: "jsnum \<Rightarrow> nat \<Rightarrow> int" where
  \<comment> \<open>\<^verbatim>\<open>a << k\<close>\<close>
  "js_shl a k = wrap32 (ToInt32 a * 2 ^ k)"

definition js_shr :: "jsnum \<Rightarrow> nat \<Rightarrow> int" where
  \<comment> \<open>\<^verbatim>\<open>a >> k\<close>, the sign-propagating shift\<close>
  "js_shr a k = ToInt32 a div 2 ^ k"

fun js_add :: "jsnum \<Rightarrow> jsnum \<Rightarrow> jsnum" where
  "js_add (Num a) (Num b) = Num (a + b)"
| "js_add _ _ = NaN"

fun js_lt :: "jsnum \<Rightarrow> jsnum \<Rightarrow> bool" where
  \<comment> \<open>\<^verbatim>\<open>a < b\<close>: false as soon as one side is \<^verbatim>\<open>NaN\<close>\<close>
  "js_lt (Num a) (Num b) = (a < b)"
| "js_lt _ _ = False"

fun js_eq :: "jsnum \<Rightarrow> jsnum \<Rightarrow> bool" where
  \<comment> \<open>\<^verbatim>\<open>a === b\<close> on numbers: \<^verbatim>\<open>NaN\<close> equals nothing, itself included\<close>
  "js_eq (Num a) (Num b) = (a = b)"
| "js_eq _ _ = False"

fun js_eq_opt :: "jsnum option \<Rightarrow> jsnum option \<Rightarrow> bool" where
  \<comment> \<open>\<^verbatim>\<open>a === b\<close> on properties that may be absent (\<^verbatim>\<open>undefined\<close>, here \<open>None\<close>)\<close>
  "js_eq_opt None None = True"
| "js_eq_opt (Some a) (Some b) = js_eq a b"
| "js_eq_opt _ _ = False"

definition byteAt :: "byte list \<Rightarrow> int \<Rightarrow> jsnum" where
  \<comment> \<open>\<^verbatim>\<open>this._data[i]\<close> as a number: \<^verbatim>\<open>undefined\<close> out of range, which every use
      converts to a number (\<^verbatim>\<open>NaN\<close>) or to an int32 (0)\<close>
  "byteAt d i = (if 0 \<le> i \<and> i < int (length d) then Num (uint (d ! nat i)) else NaN)"

definition slice :: "byte list \<Rightarrow> int \<Rightarrow> int \<Rightarrow> byte list" where
  \<comment> \<open>\<^verbatim>\<open>Uint8Array.prototype.slice(s, e)\<close>: a negative index counts from the end,
      both are clamped to the array\<close>
  "slice d s e =
     (let len = int (length d);
          from = (if s < 0 then max (len + s) 0 else min s len);
          upto = (if e < 0 then max (len + e) 0 else min e len)
      in take (nat (upto - from)) (drop (nat from) d))"

section \<open>The variable-length quantity codec\<close>

text \<open>
  \<^verbatim>\<open>_readVariableLengthNumber\<close> (MidiParser.js, lines 111-120), a do-while loop over the
  buffer; the pair returned is the number and the new \<^verbatim>\<open>_dataOffset\<close>:
  \<^verbatim>\<open>do { v = this._data[this._dataOffset++]; n = n << 7; n += v & 0x7F; } while (v & 0x80);\<close>
  The loop goes on only after a byte inside the buffer, so it ends.
\<close>

function readVariableLengthNumber_loop :: "byte list \<Rightarrow> int \<Rightarrow> int \<Rightarrow> int \<times> int" where
  "readVariableLengthNumber_loop d off n =
     (let v = byteAt d off;
          off' = off + 1;
          n' = js_shl (Num n) 7 + js_and v 0x7F
      in if js_and v 0x80 \<noteq> 0 then readVariableLengthNumber_loop d off' n' else (n', off'))"
  by pat_completeness auto
termination
  by (relation "measure (\<lambda>(d, off, n). nat (int (length d) - off))")
     (auto simp: byteAt_def js_and_def split: if_splits)

declare readVariableLengthNumber_loop.simps [simp del]

definition readVariableLengthNumber :: "byte list \<Rightarrow> int \<Rightarrow> int \<times> int" where
  "readVariableLengthNumber d off = readVariableLengthNumber_loop d off 0"

text \<open>
  What one turn of that loop does to the accumulator \<open>n\<close> on the byte \<open>c\<close>; a run over
  the bytes \<open>cs\<close> accumulates \<open>foldl vlq_step 0 cs\<close>.
\<close>

definition vlq_step :: "int \<Rightarrow> byte \<Rightarrow> int" where
  "vlq_step n c = js_shl (Num n) 7 + js_and (Num (uint c)) 0x7F"

text \<open>
  \<^verbatim>\<open>writeVariableLength\<close> of \<^verbatim>\<open>exportToMidiFile\<close> (lines 179-187 of the pitch-bend
  encoder, 210-218 of the plain one, the same text):
  \<^verbatim>\<open>let buf = [n & 0x7F]; n >>= 7; while (n > 0) { buf.unshift((n & 0x7F) | 0x80); n >>= 7; }\<close>
\<close>

function writeVariableLength_loop :: "int \<Rightarrow> int list \<Rightarrow> int list" where
  "writeVariableLength_loop n buf =
     (if n > 0
      then writeVariableLength_loop (js_shr (Num n) 7) (js_or (Num (js_and (Num n) 0x7F)) 0x80 # buf)
      else buf)"
  by pat_completeness auto
termination
proof (relation "measure (\<lambda>(n, buf). nat n)")
  show "wf (measure (\<lambda>(n, buf). nat n))" by simp
next
  fix n :: int and buf :: "int list"
  assume pos: "0 < n"
  have "(n + 2 ^ 31) mod 2 ^ 32 \<le> n + 2 ^ 31"
    using pos by (intro zmod_le_nonneg_dividend) simp
  then have "wrap32 n \<le> n"
    by (simp add: wrap32_def)
  moreover have "wrap32 n div 2 ^ 7 < n"
  proof (cases "wrap32 n \<le> 0")
    case True
    then have "wrap32 n div 2 ^ 7 \<le> 0" by (simp add: div_int_pos_iff not_less [symmetric])
    with pos show ?thesis by linarith
  next
    case False
    then have "wrap32 n div 2 ^ 7 < wrap32 n" by (simp add: int_div_less_self)
    with \<open>wrap32 n \<le> n\<close> show ?thesis by linarith
  qed
  ultimately show "((js_shr (Num n) 7, js_or (Num (js_and (Num n) 0x7F)) 0x80 # buf), (n, buf))
      \<in> measure (\<lambda>(n, buf). nat n)"
    using pos by (simp add: js_shr_def)
qed

declare writeVariableLength_loop.simps [simp del]

definition writeVariableLength :: "int \<Rightarrow> int list" where
  "writeVariableLength n = writeVariableLength_loop (js_shr (Num n) 7) [js_and (Num n) 0x7F]"

text \<open>
  \<^verbatim>\<open>new Uint8Array([...])\<close> stores each number modulo 256 (\<^verbatim>\<open>ToUint8\<close>).
\<close>

definition toUint8Array :: "int list \<Rightarrow> byte list" where
  "toUint8Array xs = map word_of_int xs"

section \<open>The decoder: \<^verbatim>\<open>MidiParser.js\<close>\<close>

subsection \<open>Parser state and events\<close>

text \<open>
  An event object \<^verbatim>\<open>{tick, type, ...data}\<close>; a property that \<^verbatim>\<open>data\<close> does not have
  is \<open>None\<close>. Every event that \<^verbatim>\<open>_pushEvent\<close> receives is a channel event, so
  \<^verbatim>\<open>channel\<close> (\<^verbatim>\<open>eventType & 0x0F\<close>) is always an integer. \<^verbatim>\<open>duration\<close> is absent until
  a note-off sets it.
\<close>

record event_data =
  d_channel :: int
  d_note :: "jsnum option"
  d_velocity :: "jsnum option"
  d_controller :: "jsnum option"
  d_program :: "jsnum option"
  d_value :: "jsnum option"

record midi_event =
  e_tick :: int
  e_type :: nat
  e_channel :: int
  e_note :: "jsnum option"
  e_velocity :: "jsnum option"
  e_controller :: "jsnum option"
  e_program :: "jsnum option"
  e_value :: "jsnum option"
  e_duration :: "int option"

text \<open>
  A tempo entry \<^verbatim>\<open>{tick, bpm: 60000000 / tempo}\<close>: the quotient is a floating-point
  number, so the entry keeps \<^verbatim>\<open>tempo\<close>, the microseconds read from the file.
\<close>

record tempo_event =
  t_tick :: int
  t_tempo :: jsnum

text \<open>
  The fields of the \<^verbatim>\<open>MidiParser\<close> object (\<^verbatim>\<open>_track\<close> is only ever assigned \<^verbatim>\<open>[]\<close> and
  is left out).
\<close>

record parser =
  data :: "byte list"
  dataOffset :: int
  event :: "midi_event list"
  totalTracks :: jsnum
  tempo :: "tempo_event list"
  format :: jsnum
  ppqn :: jsnum
  ticksPerBeat :: jsnum
  lastEventType :: jsnum

text \<open>The four \<^verbatim>\<open>throw new Error('MidiParser: ...')\<close> of the file.\<close>

datatype error =
    WrongFormat \<comment> \<open>\<^verbatim>\<open>'Wrong MIDI file format.'\<close>\<close>
  | WrongHeaderLength \<comment> \<open>\<^verbatim>\<open>'Wrong header length.'\<close>\<close>
  | WrongTrackHeader \<comment> \<open>\<^verbatim>\<open>'Wrong track header.'\<close>\<close>
  | UnknownEventType jsnum \<comment> \<open>\<^verbatim>\<open>'Unknown event type: ' + eventType.toString(16)\<close>\<close>

subsection \<open>Reading primitives\<close>

text \<open>
  \<^verbatim>\<open>_readString\<close> decodes a slice as UTF-8; its result is only ever compared with
  \<^verbatim>\<open>'MThd'\<close> and \<^verbatim>\<open>'MTrk'\<close> on a slice of at most four bytes (which decodes to such a
  tag exactly when it is the tag's four ASCII codes) or dropped, so the model returns
  the bytes.
\<close>

definition readString :: "int \<Rightarrow> parser \<Rightarrow> byte list \<times> parser" where
  "readString len p =
     (slice (data p) (dataOffset p) (dataOffset p + len),
      p\<lparr>dataOffset := dataOffset p + len\<rparr>)"

definition readNumber :: "int \<Rightarrow> parser \<Rightarrow> jsnum \<times> parser" where
  \<comment> \<open>\<^verbatim>\<open>for (i = 0; i < len; i++) { n = n << 8; n += this._data[this._dataOffset + i]; }\<close>\<close>
  "readNumber len p =
     (fold (\<lambda>i n. js_add (Num (js_shl n 8)) (byteAt (data p) (dataOffset p + int i)))
           [0 ..< nat len] (Num 0),
      p\<lparr>dataOffset := dataOffset p + len\<rparr>)"

definition readVLQ :: "parser \<Rightarrow> int \<times> parser" where
  \<comment> \<open>\<^verbatim>\<open>this._readVariableLengthNumber()\<close> on the parser object\<close>
  "readVLQ p =
     (case readVariableLengthNumber (data p) (dataOffset p) of
        (n, off) \<Rightarrow> (n, p\<lparr>dataOffset := off\<rparr>))"

definition tag_MThd :: "byte list" where
  "tag_MThd = map of_char ''MThd''"

definition tag_MTrk :: "byte list" where
  "tag_MTrk = map of_char ''MTrk''"

subsection \<open>\<^verbatim>\<open>_pushEvent\<close> and the channel events\<close>

definition new_event :: "int \<Rightarrow> nat \<Rightarrow> event_data \<Rightarrow> midi_event" where
  \<comment> \<open>\<^verbatim>\<open>{ tick: tick, type: type, ...data }\<close>\<close>
  "new_event tick type d =
     \<lparr>e_tick = tick, e_type = type, e_channel = d_channel d, e_note = d_note d,
      e_velocity = d_velocity d, e_controller = d_controller d, e_program = d_program d,
      e_value = d_value d, e_duration = None\<rparr>"

definition is_open_note_on :: "event_data \<Rightarrow> midi_event \<Rightarrow> bool" where
  \<comment> \<open>the condition of the \<^verbatim>\<open>if\<close> in the scan of \<^verbatim>\<open>_pushEvent\<close>\<close>
  "is_open_note_on d e \<longleftrightarrow>
     e_type e = 9 \<and> e_channel e = d_channel d \<and> js_eq_opt (e_note e) (d_note d)
     \<and> e_duration e = None"

text \<open>
  \<^verbatim>\<open>for (let i = this._event.length - 1; i >= 0; i--)\<close>: \<open>find_open evs d k\<close> scans the
  indices below \<open>k\<close> from the top and returns the first hit.
\<close>

fun find_open :: "midi_event list \<Rightarrow> event_data \<Rightarrow> nat \<Rightarrow> nat option" where
  "find_open evs d 0 = None"
| "find_open evs d (Suc i) =
     (if is_open_note_on d (evs ! i) then Some i else find_open evs d i)"

definition pushEvent_list :: "int \<Rightarrow> nat \<Rightarrow> event_data \<Rightarrow> midi_event list \<Rightarrow> midi_event list" where
  "pushEvent_list tick type d evs =
     (if type = 8
      then (case find_open evs d (length evs) of
              Some i \<Rightarrow> evs[i := (evs ! i)\<lparr>e_duration := Some (tick - e_tick (evs ! i))\<rparr>]
            | None \<Rightarrow> evs @ [new_event tick type d])
      else evs @ [new_event tick type d])"

definition pushEvent :: "int \<Rightarrow> nat \<Rightarrow> event_data \<Rightarrow> parser \<Rightarrow> parser" where
  "pushEvent tick type d p = p\<lparr>event := pushEvent_list tick type d (event p)\<rparr>"

text \<open>A sequence of \<^verbatim>\<open>_pushEvent\<close> calls \<open>(tick, type, data)\<close>, made in order.\<close>

definition pushEvents :: "(int \<times> nat \<times> event_data) list \<Rightarrow> parser \<Rightarrow> parser" where
  "pushEvents calls p = fold (\<lambda>(tick, type, d). pushEvent tick type d) calls p"

definition no_data :: "int \<Rightarrow> event_data" where
  "no_data ch = \<lparr>d_channel = ch, d_note = None, d_velocity = None, d_controller = None,
      d_program = None, d_value = None\<rparr>"

definition parseNoteOff :: "int \<Rightarrow> int \<Rightarrow> parser \<Rightarrow> parser" where
  \<comment> \<open>declared with two parameters: further arguments of a call are ignored\<close>
  "parseNoteOff tick ch p =
     (case readNumber 1 p of (note, p1) \<Rightarrow>
      case readNumber 1 p1 of (velocity, p2) \<Rightarrow>
        pushEvent tick 8 ((no_data ch)\<lparr>d_note := Some note, d_velocity := Some velocity\<rparr>) p2)"

definition parseNoteOn :: "int \<Rightarrow> int \<Rightarrow> parser \<Rightarrow> parser" where
  "parseNoteOn tick ch p =
     (case readNumber 1 p of (note, p1) \<Rightarrow>
      case readNumber 1 p1 of (velocity, p2) \<Rightarrow>
        if js_eq velocity (Num 0)
        then parseNoteOff tick ch p2 \<comment> \<open>\<^verbatim>\<open>this._parseNoteOff(tick, channel, note, velocity)\<close>\<close>
        else pushEvent tick 9 ((no_data ch)\<lparr>d_note := Some note, d_velocity := Some velocity\<rparr>) p2)"

definition parseNoteAftertouch :: "int \<Rightarrow> int \<Rightarrow> parser \<Rightarrow> parser" where
  "parseNoteAftertouch tick ch p =
     (case readNumber 1 p of (note, p1) \<Rightarrow>
      case readNumber 1 p1 of (val, p2) \<Rightarrow>
        pushEvent tick 10 ((no_data ch)\<lparr>d_note := Some note, d_value := Some val\<rparr>) p2)"

definition parseController :: "int \<Rightarrow> int \<Rightarrow> parser \<Rightarrow> parser" where
  "parseController tick ch p =
     (case readNumber 1 p of (controller, p1) \<Rightarrow>
      case readNumber 1 p1 of (val, p2) \<Rightarrow>
        pushEvent tick 11 ((no_data ch)\<lparr>d_controller := Some controller, d_value := Some val\<rparr>) p2)"

definition parseProgramChange :: "int \<Rightarrow> int \<Rightarrow> parser \<Rightarrow> parser" where
  "parseProgramChange tick ch p =
     (case readNumber 1 p of (program, p1) \<Rightarrow>
        pushEvent tick 12 ((no_data ch)\<lparr>d_program := Some program\<rparr>) p1)"

definition parseChannelAftertouch :: "int \<Rightarrow> int \<Rightarrow> parser \<Rightarrow> parser" where
  "parseChannelAftertouch tick ch p =
     (case readNumber 1 p of (val, p1) \<Rightarrow>
        pushEvent tick 13 ((no_data ch)\<lparr>d_value := Some val\<rparr>) p1)"

definition parsePitchBend :: "int \<Rightarrow> int \<Rightarrow> parser \<Rightarrow> parser" where
  "parsePitchBend tick ch p =
     (case readNumber 2 p of (val, p1) \<Rightarrow>
        pushEvent tick 14 ((no_data ch)\<lparr>d_value := Some val\<rparr>) p1)"

subsection \<open>Meta events\<close>

text \<open>
  Each handler receives \<^verbatim>\<open>(tick, eventType, eventLength)\<close>; the model passes the
  arguments the body uses. The values read are dropped by the source (\<^verbatim>\<open>//\<close>), except
  the tempo.
\<close>

definition parseSequenceNumber :: "int \<Rightarrow> parser \<Rightarrow> parser" where
  "parseSequenceNumber eventLength p = snd (readNumber eventLength p)"

definition parseTextEvent :: "int \<Rightarrow> parser \<Rightarrow> parser" where
  "parseTextEvent eventLength p = snd (readString eventLength p)"

definition parseCopyrightNotice :: "int \<Rightarrow> parser \<Rightarrow> parser" where
  "parseCopyrightNotice eventLength p = snd (readString eventLength p)"

definition parseTrackName :: "int \<Rightarrow> parser \<Rightarrow> parser" where
  "parseTrackName eventLength p = snd (readString eventLength p)"

definition parseInstrumentName :: "int \<Rightarrow> parser \<Rightarrow> parser" where
  "parseInstrumentName eventLength p = snd (readString eventLength p)"

definition parseLyric :: "int \<Rightarrow> parser \<Rightarrow> parser" where
  "parseLyric eventLength p = snd (readString eventLength p)"

definition parseMarker :: "int \<Rightarrow> parser \<Rightarrow> parser" where
  "parseMarker eventLength p = snd (readString eventLength p)"

definition parseCuePoint :: "int \<Rightarrow> parser \<Rightarrow> parser" where
  "parseCuePoint eventLength p = snd (readString eventLength p)"

definition parseChannelPrefix :: "int \<Rightarrow> parser \<Rightarrow> parser" where
  "parseChannelPrefix eventLength p = snd (readNumber eventLength p)"

definition parseEndOfTrack :: "int \<Rightarrow> parser \<Rightarrow> parser" where
  "parseEndOfTrack eventLength p = p"

definition parseSetTempo :: "int \<Rightarrow> int \<Rightarrow> parser \<Rightarrow> parser" where
  "parseSetTempo tick eventLength p =
     (case readNumber eventLength p of (tempo', p1) \<Rightarrow>
        p1\<lparr>tempo := tempo p1 @ [\<lparr>t_tick = tick, t_tempo = tempo'\<rparr>]\<rparr>)"

definition parseSmpteOffset :: "int \<Rightarrow> parser \<Rightarrow> parser" where
  \<comment> \<open>hour, minute, second, frame, subFrame\<close>
  "parseSmpteOffset eventLength p =
     snd (readNumber 1 (snd (readNumber 1 (snd (readNumber 1 (snd (readNumber 1
       (snd (readNumber 1 p)))))))))"

definition parseTimeSignature :: "int \<Rightarrow> parser \<Rightarrow> parser" where
  \<comment> \<open>numerator, denominator, metronome, thirtySecondNotes\<close>
  "parseTimeSignature eventLength p =
     snd (readNumber 1 (snd (readNumber 1 (snd (readNumber 1 (snd (readNumber 1 p)))))))"

definition parseKeySignature :: "int \<Rightarrow> parser \<Rightarrow> parser" where
  \<comment> \<open>key, scale\<close>
  "parseKeySignature eventLength p = snd (readNumber 1 (snd (readNumber 1 p)))"

definition parseSequencerSpecificMetaEvent :: "int \<Rightarrow> parser \<Rightarrow> parser" where
  "parseSequencerSpecificMetaEvent eventLength p = snd (readString eventLength p)"

text \<open>
  The \<^verbatim>\<open>switch (metaEventType)\<close> of \<^verbatim>\<open>_parseMetaEvent\<close>, after the type byte and the
  length have been read: \<^verbatim>\<open>NaN\<close> (a type byte read out of range) matches no case.
\<close>

definition metaSwitch :: "int \<Rightarrow> jsnum \<Rightarrow> int \<Rightarrow> parser \<Rightarrow> parser" where
  "metaSwitch tick metaEventType metaEventLength p =
     (if js_eq metaEventType (Num 0x00) then parseSequenceNumber metaEventLength p
      else if js_eq metaEventType (Num 0x01) then parseTextEvent metaEventLength p
      else if js_eq metaEventType (Num 0x02) then parseCopyrightNotice metaEventLength p
      else if js_eq metaEventType (Num 0x03) then parseTrackName metaEventLength p
      else if js_eq metaEventType (Num 0x04) then parseInstrumentName metaEventLength p
      else if js_eq metaEventType (Num 0x05) then parseLyric metaEventLength p
      else if js_eq metaEventType (Num 0x06) then parseMarker metaEventLength p
      else if js_eq metaEventType (Num 0x07) then parseCuePoint metaEventLength p
      else if js_eq metaEventType (Num 0x20) then parseChannelPrefix metaEventLength p
      else if js_eq metaEventType (Num 0x2F) then parseEndOfTrack metaEventLength p
      else if js_eq metaEventType (Num 0x51) then parseSetTempo tick metaEventLength p
      else if js_eq metaEventType (Num 0x54) then parseSmpteOffset metaEventLength p
      else if js_eq metaEventType (Num 0x58) then parseTimeSignature metaEventLength p
      else if js_eq metaEventType (Num 0x59) then parseKeySignature metaEventLength p
      else if js_eq metaEventType (Num 0x7F) then parseSequencerSpecificMetaEvent metaEventLength p
      else p\<lparr>dataOffset := dataOffset p + metaEventLength\<rparr>)"

definition parseMetaEvent :: "int \<Rightarrow> parser \<Rightarrow> parser" where
  "parseMetaEvent tick p =
     (case readNumber 1 p of (metaEventType, p1) \<Rightarrow>
      case readVLQ p1 of (metaEventLength, p2) \<Rightarrow>
        metaSwitch tick metaEventType metaEventLength p2)"

subsection \<open>Tracks\<close>

text \<open>
  The \<^verbatim>\<open>switch (eventType & 0xF0)\<close> of \<^verbatim>\<open>_parseTracks\<close>; the default case throws.
\<close>

definition dispatchEvent :: "int \<Rightarrow> jsnum \<Rightarrow> parser \<Rightarrow> error + parser" where
  "dispatchEvent tick eventType p =
     (let kind = js_and eventType 0xF0; ch = js_and eventType 0x0F
      in if kind = 0x80 then Inr (parseNoteOff tick ch p)
         else if kind = 0x90 then Inr (parseNoteOn tick ch p)
         else if kind = 0xA0 then Inr (parseNoteAftertouch tick ch p)
         else if kind = 0xB0 then Inr (parseController tick ch p)
         else if kind = 0xC0 then Inr (parseProgramChange tick ch p)
         else if kind = 0xD0 then Inr (parseChannelAftertouch tick ch p)
         else if kind = 0xE0 then Inr (parsePitchBend tick ch p)
         else if kind = 0xF0 then Inr (parseMetaEvent tick p)
         else Inl (UnknownEventType eventType))"

text \<open>
  One turn of the \<^verbatim>\<open>while\<close> loop: the delta time, the status byte with the running
  status check, the event, and the update of \<^verbatim>\<open>_lastEventType\<close>. It returns the new
  \<^verbatim>\<open>tick\<close> with the parser.
\<close>

definition parseTrackEvent :: "int \<Rightarrow> parser \<Rightarrow> error + int \<times> parser" where
  "parseTrackEvent tick p =
     (case readVLQ p of (delta, p1) \<Rightarrow>
      case readNumber 1 p1 of (status, p2) \<Rightarrow>
        let tick' = tick + delta;
            running = js_lt status (Num 0x80);
            eventType = (if running then lastEventType p2 else status);
            p3 = (if running then p2\<lparr>dataOffset := dataOffset p2 - 1\<rparr> else p2)
        in case dispatchEvent tick' eventType p3 of
             Inl e \<Rightarrow> Inl e
           | Inr p4 \<Rightarrow> Inr (tick', p4\<lparr>lastEventType := eventType\<rparr>))"

text \<open>
  \<^verbatim>\<open>while (this._dataOffset < trackEnd)\<close>. A meta event whose length reads as a negative
  number moves the offset backwards, so the loop need not end: the result \<open>None\<close> is a
  run that never returns.
\<close>

partial_function (option) parseTrackEvents :: "jsnum \<Rightarrow> int \<Rightarrow> parser \<Rightarrow> (error + parser) option" where
  "parseTrackEvents trackEnd tick p =
     (if js_lt (Num (dataOffset p)) trackEnd
      then (case parseTrackEvent tick p of
              Inl e \<Rightarrow> Some (Inl e)
            | Inr (tick', p') \<Rightarrow> parseTrackEvents trackEnd tick' p')
      else Some (Inr p))"

declare parseTrackEvents.simps [code]

definition parseTrack :: "parser \<Rightarrow> (error + parser) option" where
  \<comment> \<open>the body of \<^verbatim>\<open>for (let i = 0; i < this._totalTracks; i++)\<close>\<close>
  "parseTrack p =
     (case readString 4 p of (tag, p1) \<Rightarrow>
        if tag \<noteq> tag_MTrk then Some (Inl WrongTrackHeader)
        else case readNumber 4 p1 of (trackLength, p2) \<Rightarrow>
          parseTrackEvents (js_add (Num (dataOffset p2)) trackLength) 0 p2)"

fun parseTracks_loop :: "nat \<Rightarrow> parser \<Rightarrow> (error + parser) option" where
  "parseTracks_loop 0 p = Some (Inr p)"
| "parseTracks_loop (Suc k) p =
     (case parseTrack p of
        None \<Rightarrow> None
      | Some (Inl e) \<Rightarrow> Some (Inl e)
      | Some (Inr p') \<Rightarrow> parseTracks_loop k p')"

definition parseTracks :: "parser \<Rightarrow> (error + parser) option" where
  \<comment> \<open>\<^verbatim>\<open>i < this._totalTracks\<close> is false at once for \<^verbatim>\<open>NaN\<close>\<close>
  "parseTracks p =
     parseTracks_loop (case totalTracks p of Num n \<Rightarrow> nat n | NaN \<Rightarrow> 0) p"

subsection \<open>Header and constructor\<close>

definition parseHeader :: "parser \<Rightarrow> error + parser" where
  "parseHeader p =
     (case readString 4 p of (tag, p1) \<Rightarrow>
        if tag \<noteq> tag_MThd then Inl WrongFormat
        else case readNumber 4 p1 of (len, p2) \<Rightarrow>
          if \<not> js_eq len (Num 6) then Inl WrongHeaderLength
          else case readNumber 2 p2 of (format', p3) \<Rightarrow>
               case readNumber 2 p3 of (totalTracks', p4) \<Rightarrow>
               case readNumber 2 p4 of (ppqn', p5) \<Rightarrow>
                 Inr (p5\<lparr>format := format', totalTracks := totalTracks',
                        ticksPerBeat := (if js_and ppqn' 0x8000 \<noteq> 0 then Num 0 else ppqn')\<rparr>))"

definition init_parser :: "byte list \<Rightarrow> parser" where
  "init_parser d =
     \<lparr>data = d, dataOffset = 0, event = [], totalTracks = Num 0, tempo = [], format = Num 0,
      ppqn = Num 0, ticksPerBeat = Num 0, lastEventType = Num 0\<rparr>"

text \<open>
  The constructor, on the bytes of an \<^verbatim>\<open>ArrayBuffer\<close>: \<open>Some (Inl e)\<close> is a throw (no
  object reaches the caller), \<open>Some (Inr p)\<close> the parser object returned, \<open>None\<close> a
  constructor that never returns.
\<close>

definition MidiParser :: "byte list \<Rightarrow> (error + parser) option" where
  "MidiParser d =
     (if int (length d) < 18 \<or> slice d 0 4 \<noteq> tag_MThd then Some (Inl WrongFormat)
      else case parseHeader (init_parser d) of
             Inl e \<Rightarrow> Some (Inl e)
           | Inr p \<Rightarrow> parseTracks p)"

section \<open>The encoder: \<^verbatim>\<open>exportToMidiFile\<close> with pitch bend\<close>

text \<open>
  The encoder of the polyphonic pitch-bend version (\<^verbatim>\<open>exportToMidiFile\<close>, lines 175-280
  of its file). Its floating-point part is not modelled: a \<open>circle\<close> holds the integers
  that the \<^verbatim>\<open>forEach\<close> body computes with \<^verbatim>\<open>Math.round\<close> (\<^verbatim>\<open>startTick\<close>,
  \<^verbatim>\<open>durationTicks\<close>, \<^verbatim>\<open>closestMidiNote\<close>, \<^verbatim>\<open>bendValue\<close>) and the note's \<^verbatim>\<open>velocity\<close>
  property (\<open>None\<close> when absent); \<^verbatim>\<open>microsecondsPerQuarterNote\<close> is a parameter. What the
  function does with the bytes (a download) is outside the model, which returns them.
\<close>

record circle =
  c_startTick :: int
  c_durationTicks :: int
  c_velocity :: "int option"
  c_closestMidiNote :: int
  c_bendValue :: int

text \<open>
  The objects pushed on \<^verbatim>\<open>noteEvents\<close>, by their \<^verbatim>\<open>type\<close> (\<^verbatim>\<open>'bend'\<close>, \<^verbatim>\<open>'on'\<close>,
  \<^verbatim>\<open>'off'\<close>); \<open>note_number\<close> is the property \<^verbatim>\<open>note\<close>.
\<close>

datatype note_event =
    Bend (tick: int) (lsb: int) (msb: int) (channel: int)
  | NoteOn (tick: int) (note_number: int) (velocity: int) (channel: int)
  | NoteOff (tick: int) (note_number: int) (velocity: int) (channel: int)

definition PITCH_BEND_RANGE_SEMITONES :: int where
  "PITCH_BEND_RANGE_SEMITONES = 2"

definition channelPool :: "int list" where
  \<comment> \<open>\<^verbatim>\<open>midiChannelManager.channelPool\<close>\<close>
  "channelPool = [0, 1, 2, 3, 4, 5, 6, 7, 8, 10, 11, 12, 13, 14, 15]"

definition TICKS_PER_BEAT :: int where
  "TICKS_PER_BEAT = 480"

definition js_or_else :: "int \<Rightarrow> int \<Rightarrow> int" where
  \<comment> \<open>\<^verbatim>\<open>x || d\<close> on a number: 0 is falsy\<close>
  "js_or_else x d = (if x = 0 then d else x)"

definition writeStringToBytes :: "string \<Rightarrow> int list" where
  "writeStringToBytes str = map of_char str"

definition write32 :: "int \<Rightarrow> int list" where
  "write32 n = [js_and (Num (js_shr (Num n) 24)) 0xFF, js_and (Num (js_shr (Num n) 16)) 0xFF,
                js_and (Num (js_shr (Num n) 8)) 0xFF, js_and (Num n) 0xFF]"

definition write16 :: "int \<Rightarrow> int list" where
  "write16 n = [js_and (Num (js_shr (Num n) 8)) 0xFF, js_and (Num n) 0xFF]"

text \<open>
  The body of \<^verbatim>\<open>circlesToExport.forEach\<close>, on the pair of \<^verbatim>\<open>noteEvents\<close> and
  \<^verbatim>\<open>channelIndex\<close>.
\<close>

definition addCircle :: "circle \<Rightarrow> note_event list \<times> nat \<Rightarrow> note_event list \<times> nat" where
  "addCircle c st =
     (case st of (noteEvents, channelIndex) \<Rightarrow>
        if c_startTick c < 0 then (noteEvents, channelIndex)
        else
          let velocity' = max 1 (min 127
                (case c_velocity c of None \<Rightarrow> 100 | Some v \<Rightarrow> js_or_else v 100));
              channel' = channelPool ! channelIndex;
              lsb' = js_and (Num (c_bendValue c)) 0x7F;
              msb' = js_and (Num (js_shr (Num (c_bendValue c)) 7)) 0x7F
          in (noteEvents @
                [Bend (c_startTick c) lsb' msb' channel',
                 NoteOn (c_startTick c) (c_closestMidiNote c) velocity' channel',
                 NoteOff (c_startTick c + c_durationTicks c) (c_closestMidiNote c) 0 channel'],
              (channelIndex + 1) mod length channelPool))"

definition buildNoteEvents :: "circle list \<Rightarrow> note_event list" where
  "buildNoteEvents circles = fst (fold addCircle circles ([], 0))"

text \<open>
  The comparator of \<^verbatim>\<open>noteEvents.sort\<close>, with
  \<^verbatim>\<open>typeOrder = { 'bend': 0, 'on': 1, 'off': 2 }\<close> and
  \<^verbatim>\<open>(typeOrder[a.type] || 99) - (typeOrder[b.type] || 99)\<close>.
\<close>

fun typeOrder :: "note_event \<Rightarrow> int" where
  "typeOrder (Bend _ _ _ _) = 0"
| "typeOrder (NoteOn _ _ _ _) = 1"
| "typeOrder (NoteOff _ _ _ _) = 2"

definition compareEvents :: "note_event \<Rightarrow> note_event \<Rightarrow> int" where
  "compareEvents a b =
     (if tick a \<noteq> tick b then tick a - tick b
      else js_or_else (typeOrder a) 99 - js_or_else (typeOrder b) 99)"

text \<open>
  \<^verbatim>\<open>Array.prototype.sort\<close> with a consistent comparator returns the stable sorted
  permutation; insertion from the right computes it (an element goes before the first
  one it does not exceed, so equal elements keep their order).
\<close>

fun insert_sorted :: "('a \<Rightarrow> 'a \<Rightarrow> int) \<Rightarrow> 'a \<Rightarrow> 'a list \<Rightarrow> 'a list" where
  "insert_sorted cmp x [] = [x]"
| "insert_sorted cmp x (y # ys) =
     (if cmp x y \<le> 0 then x # y # ys else y # insert_sorted cmp x ys)"

fun array_sort :: "('a \<Rightarrow> 'a \<Rightarrow> int) \<Rightarrow> 'a list \<Rightarrow> 'a list" where
  "array_sort cmp [] = []"
| "array_sort cmp (x # xs) = insert_sorted cmp x (array_sort cmp xs)"

definition tempoBytes :: "jsnum \<Rightarrow> int list" where
  "tempoBytes microsecondsPerQuarterNote =
     [0x00, 0xFF, 0x51, 0x03,
      js_and (Num (js_shr microsecondsPerQuarterNote 16)) 0xFF,
      js_and (Num (js_shr microsecondsPerQuarterNote 8)) 0xFF,
      js_and microsecondsPerQuarterNote 0xFF]"

definition bendRangeBytes :: "int \<Rightarrow> int list" where
  \<comment> \<open>the six controller messages pushed for one channel of the pool\<close>
  "bendRangeBytes ch =
     [0x00, js_or (Num 0xB0) ch, 101, 0,
      0x00, js_or (Num 0xB0) ch, 100, 0,
      0x00, js_or (Num 0xB0) ch, 6, PITCH_BEND_RANGE_SEMITONES,
      0x00, js_or (Num 0xB0) ch, 38, 0,
      0x00, js_or (Num 0xB0) ch, 101, 127,
      0x00, js_or (Num 0xB0) ch, 100, 127]"

fun message :: "note_event \<Rightarrow> int list" where
  \<comment> \<open>the status and data bytes pushed for one event\<close>
  "message (NoteOn t n v ch) = [js_or (Num 0x90) ch, n, v]"
| "message (NoteOff t n v ch) = [js_or (Num 0x80) ch, n, v]"
| "message (Bend t l m ch) = [js_or (Num 0xE0) ch, l, m]"

text \<open>
  The emission loop \<^verbatim>\<open>noteEvents.forEach\<close> with \<^verbatim>\<open>lastTick\<close>: for each event, the
  \<^verbatim>\<open>delta\<close> handed to \<^verbatim>\<open>writeVariableLength\<close> and the three bytes pushed after it.
\<close>

fun timedMessages :: "int \<Rightarrow> note_event list \<Rightarrow> (int \<times> int list) list" where
  "timedMessages lastTick [] = []"
| "timedMessages lastTick (e # es) = (tick e - lastTick, message e) # timedMessages (tick e) es"

definition emit :: "int \<times> int list \<Rightarrow> int list" where
  "emit dm = writeVariableLength (fst dm) @ snd dm"

definition trackBytes :: "note_event list \<Rightarrow> jsnum \<Rightarrow> int list" where
  "trackBytes noteEvents microsecondsPerQuarterNote =
     tempoBytes microsecondsPerQuarterNote
     @ concat (map bendRangeBytes channelPool)
     @ concat (map emit (timedMessages 0 noteEvents))
     @ writeVariableLength 0 @ [0xFF, 0x2F, 0x00]"

definition exportToMidiFile :: "circle list \<Rightarrow> jsnum \<Rightarrow> byte list option" where
  \<comment> \<open>\<open>None\<close>: the alert "No notes to export." and no file\<close>
  "exportToMidiFile circlesToExport microsecondsPerQuarterNote =
     (let noteEvents = buildNoteEvents circlesToExport
      in if length noteEvents = 0 then None
         else
           let noteEvents' = array_sort compareEvents noteEvents;
               tb = trackBytes noteEvents' microsecondsPerQuarterNote;
               header = writeStringToBytes ''MThd'' @ write32 6 @ write16 0 @ write16 1
                        @ write16 TICKS_PER_BEAT;
               trackHeader = writeStringToBytes ''MTrk'' @ write32 (int (length tb))
           in Some (toUint8Array (header @ trackHeader @ tb)))"

section \<open>Event chunks\<close>

text \<open>
  The shapes of the events that \<^verbatim>\<open>exportToMidiFile\<close> writes, as bytes: a delta time
  (continuation bytes \<open>cs\<close> and a last byte \<open>b\<close>), then either a status byte of a
  Note-Off, Note-On, Controller or Pitch-Bend with two data bytes (the velocity of a
  Note-On not 0), or a Set Tempo event with three payload bytes, or End of Track.
\<close>

inductive event_chunk :: "byte list \<Rightarrow> bool" where
  voice:
    "\<lbrakk>\<forall>x \<in> set cs. 128 \<le> uint x; uint b < 128;
      uint st div 16 \<in> {8, 11, 14} \<or> (uint st div 16 = 9 \<and> d2 \<noteq> 0)\<rbrakk>
     \<Longrightarrow> event_chunk (cs @ [b, st, d1, d2])"
| set_tempo:
    "\<lbrakk>\<forall>x \<in> set cs. 128 \<le> uint x; uint b < 128\<rbrakk>
     \<Longrightarrow> event_chunk (cs @ [b, 0xFF, 0x51, 0x03, x1, x2, x3])"
| end_of_track:
    "\<lbrakk>\<forall>x \<in> set cs. 128 \<le> uint x; uint b < 128\<rbrakk>
     \<Longrightarrow> event_chunk (cs @ [b, 0xFF, 0x2F, 0x00])"

text \<open>A byte list that is a sequence of such events.\<close>

definition chunked :: "byte list \<Rightarrow> bool" where
  "chunked bs \<longleftrightarrow> (\<exists>chunks. bs = concat chunks \<and> (\<forall>c \<in> set chunks. event_chunk c))"

text \<open>The fields of the parser that the events of a track leave alone.\<close>

definition header_of :: "parser \<Rightarrow> byte list \<times> jsnum \<times> jsnum \<times> jsnum" where
  "header_of p = (data p, format p, totalTracks p, ticksPerBeat p)"

section \<open>Example files\<close>

text \<open>
  A format-0 file with one track, 480 ticks per quarter note, whose track chunk holds the
  event bytes \<open>evs\<close> (fewer than 256 of them).
\<close>

definition one_track_file :: "byte list \<Rightarrow> byte list" where
  "one_track_file evs =
     [0x4D, 0x54, 0x68, 0x64, 0, 0, 0, 6, 0, 0, 0, 1, 0x01, 0xE0,
      0x4D, 0x54, 0x72, 0x6B, 0, 0, 0, of_nat (length evs)] @ evs"

text \<open>
  The parser object as \<^verbatim>\<open>_parseTracks\<close> has it when it enters the \<^verbatim>\<open>while\<close> loop of that
  file: header read, offset 22 at the first event.
\<close>

definition at_first_event :: "byte list \<Rightarrow> parser" where
  "at_first_event evs =
     (init_parser (one_track_file evs))
       \<lparr>dataOffset := 22, totalTracks := Num 1, ticksPerBeat := Num 480\<rparr>"

text \<open>A note of 480 ticks at tick 0, A4 with no bend, as the encoder's loop computes it.\<close>

definition a4_note :: circle where
  "a4_note = \<lparr>c_startTick = 0, c_durationTicks = 480, c_velocity = Some 100,
               c_closestMidiNote = 69, c_bendValue = 8192\<rparr>"

section \<open>Lemmas on the JavaScript operators\<close>

text \<open>
  \<open>wrap32\<close> is the identity on the signed 32-bit range and keeps residues modulo the
  divisors of \<open>2 ^ 32\<close>; a bitwise AND with a mask of consecutive bits is a division and a
  remainder.
\<close>

lemma wrap32_id: "- 2147483648 \<le> x \<Longrightarrow> x < 2147483648 \<Longrightarrow> wrap32 x = x"
  by (simp add: wrap32_def)

lemma wrap32_mod: "wrap32 x mod 2 ^ 32 = x mod 2 ^ 32"
proof -
  have "((x + 2 ^ 31) mod 2 ^ 32 - 2 ^ 31) mod 2 ^ 32 = (x + 2 ^ 31 - 2 ^ 31) mod 2 ^ 32"
    by (rule mod_diff_left_eq)
  then show ?thesis by (simp add: wrap32_def)
qed

lemma wrap32_mod_dvd: "d dvd 2 ^ 32 \<Longrightarrow> wrap32 x mod d = x mod d"
proof -
  assume d: "d dvd 2 ^ 32"
  have "wrap32 x mod d = wrap32 x mod 2 ^ 32 mod d"
    using d by (simp only: mod_mod_cancel)
  also have "\<dots> = x mod 2 ^ 32 mod d"
    by (simp only: wrap32_mod)
  also have "\<dots> = x mod d"
    using d by (simp only: mod_mod_cancel)
  finally show ?thesis .
qed

lemma and_mask_mod: "(x::int) AND mask n = x mod 2 ^ n"
  by (simp flip: take_bit_eq_mask add: take_bit_eq_mod)

lemma and_even: "(x::int) AND 2 * y = 2 * (x div 2 AND y)"
  by (subst and_int_rec) simp

lemma and_shift: "(x::int) AND 2 ^ n * y = 2 ^ n * (x div 2 ^ n AND y)"
proof (induction n arbitrary: x)
  case 0
  show ?case by simp
next
  case (Suc n)
  have "x AND 2 ^ Suc n * y = x AND 2 * (2 ^ n * y)"
    by (simp add: mult.assoc)
  also have "\<dots> = 2 * (x div 2 AND 2 ^ n * y)"
    by (rule and_even)
  also have "\<dots> = 2 * (2 ^ n * (x div 2 div 2 ^ n AND y))"
    by (simp only: Suc.IH)
  also have "x div 2 div 2 ^ n = x div 2 ^ Suc n"
    by (simp add: zdiv_zmult2_eq)
  finally show ?case by (simp add: mult.assoc)
qed

lemma and_shifted_mask:
  "(x::int) AND (2 ^ n * (2 ^ m - 1)) = 2 ^ n * (x div 2 ^ n mod 2 ^ m)"
  using and_shift [of x n "2 ^ m - 1"] and_mask_mod [of "x div 2 ^ n" m]
  by (simp add: mask_eq_exp_minus_1)

lemma int_and_127: "(x::int) AND 127 = x mod 128"
  using and_shifted_mask [of x 0 7] by simp

lemma int_and_255: "(x::int) AND 255 = x mod 256"
  using and_shifted_mask [of x 0 8] by simp

lemma int_and_128: "(x::int) AND 128 = 128 * (x div 128 mod 2)"
  using and_shifted_mask [of x 7 1] by simp

lemma int_and_240: "(x::int) AND 240 = 16 * (x div 16 mod 16)"
  using and_shifted_mask [of x 4 4] by simp

lemma js_and_7F: "js_and (Num x) 0x7F = x mod 128"
  by (simp add: js_and_def wrap32_id int_and_127 wrap32_mod_dvd)

lemma js_and_FF: "js_and (Num x) 0xFF = x mod 256"
  by (simp add: js_and_def wrap32_id int_and_255 wrap32_mod_dvd)

lemma uint_byte_bounds: "0 \<le> uint (b::byte)" "uint (b::byte) < 256"
  using uint_bounded [of b] by simp_all

lemma js_and_byte_80: "js_and (Num (uint (b::byte))) 0x80 \<noteq> 0 \<longleftrightarrow> 128 \<le> uint b"
proof -
  have w: "wrap32 (uint b) = uint b"
    using uint_byte_bounds [of b] by (intro wrap32_id) linarith+
  have "uint b div 128 mod 2 = (if 128 \<le> uint b then 1 else 0)"
    using uint_byte_bounds [of b] by (auto simp: div_pos_pos_trivial) 
  then show ?thesis
    by (simp add: js_and_def w wrap32_id int_and_128)
qed

lemma js_and_byte_7F: "js_and (Num (uint (b::byte))) 0x7F = uint b mod 128"
  by (rule js_and_7F)

section \<open>Lemmas on the variable-length codec\<close>

subsection \<open>The reader on continuation bytes closed by a last byte\<close>

lemma byteAt_append: "byteAt (pre @ b # post) (int (length pre)) = Num (uint b)"
  by (simp add: byteAt_def)

lemma vlq_step_mod: "vlq_step n c = js_shl (Num n) 7 + uint c mod 128"
  by (simp only: vlq_step_def js_and_7F)

lemma readVLQ_loop_shape:
  assumes "\<forall>c \<in> set cs. 128 \<le> uint c" and "uint b < 128"
  shows "readVariableLengthNumber_loop (pre @ cs @ b # post) (int (length pre)) n
         = (foldl vlq_step n (cs @ [b]), int (length pre) + int (length cs) + 1)"
  using assms
proof (induction cs arbitrary: pre n)
  case Nil
  then show ?case
    by (subst readVariableLengthNumber_loop.simps)
       (simp add: byteAt_append js_and_byte_80 js_and_byte_7F vlq_step_mod Let_def)
next
  case (Cons c cs)
  have c: "128 \<le> uint c" using Cons.prems by simp
  have IH: "readVariableLengthNumber_loop ((pre @ [c]) @ cs @ b # post) (int (length (pre @ [c]))) (vlq_step n c)
      = (foldl vlq_step (vlq_step n c) (cs @ [b]), int (length (pre @ [c])) + int (length cs) + 1)"
    using Cons.prems by (intro Cons.IH) simp_all
  show ?case
    apply (subst readVariableLengthNumber_loop.simps)
    using IH c
    by (simp add: byteAt_append js_and_byte_80 js_and_byte_7F vlq_step_mod Let_def add.commute)
qed



subsection \<open>The bytes of the writer\<close>

lemma js_or_80: "0 \<le> x \<Longrightarrow> x < 128 \<Longrightarrow> js_or (Num x) 0x80 = x + 128"
proof -
  assume x: "0 \<le> x" "x < 128"
  have "x div 128 = 0"
    using x by (simp add: div_pos_pos_trivial)
  then have "x AND 128 = 0"
    by (simp only: int_and_128) simp
  then have "x OR 128 = x + 128"
    by (rule disjunctive_add_eq_or [symmetric])
  moreover have "wrap32 x = x" using x by (intro wrap32_id) linarith+
  moreover have "wrap32 128 = 128" by (intro wrap32_id) simp_all
  ultimately show ?thesis by (simp only: js_or_def ToInt32.simps)
qed

lemma continuation_byte: "js_or (Num (js_and (Num n) 0x7F)) 0x80 = n mod 128 + 128"
proof -
  have "0 \<le> n mod 128" "n mod 128 < 128" by simp_all
  then have "js_or (Num (n mod 128)) 0x80 = n mod 128 + 128" by (rule js_or_80)
  then show ?thesis by (simp only: js_and_7F)
qed

lemma loop_step:
  "0 < n \<Longrightarrow> writeVariableLength_loop n buf
     = writeVariableLength_loop (js_shr (Num n) 7) ((n mod 128 + 128) # buf)"
  by (subst writeVariableLength_loop.simps) (simp add: continuation_byte)

lemma loop_stop: "n \<le> 0 \<Longrightarrow> writeVariableLength_loop n buf = buf"
  by (subst writeVariableLength_loop.simps) simp

lemma wrap32_le: "0 \<le> n \<Longrightarrow> wrap32 n \<le> n"
proof -
  assume "0 \<le> n"
  then have "(n + 2 ^ 31) mod 2 ^ 32 \<le> n + 2 ^ 31"
    by (intro zmod_le_nonneg_dividend) simp
  then show ?thesis by (simp add: wrap32_def)
qed

lemma js_shr_less: "0 < n \<Longrightarrow> js_shr (Num n) 7 < n"
proof -
  assume pos: "0 < n"
  have le: "wrap32 n \<le> n" using pos by (intro wrap32_le) simp
  show ?thesis
  proof (cases "wrap32 n \<le> 0")
    case True
    then have "wrap32 n div 2 ^ 7 \<le> 0" by (simp add: div_int_pos_iff not_less [symmetric])
    with pos show ?thesis by (simp add: js_shr_def)
  next
    case False
    then have "wrap32 n div 2 ^ 7 < wrap32 n" by (simp add: int_div_less_self)
    with le show ?thesis by (simp add: js_shr_def)
  qed
qed

lemma loop_append: "writeVariableLength_loop m buf = writeVariableLength_loop m [] @ buf"
proof (induction "nat m" arbitrary: m buf rule: less_induct)
  case less
  show ?case
  proof (cases "0 < m")
    case True
    have IH: "\<And>buf. writeVariableLength_loop (js_shr (Num m) 7) buf
                  = writeVariableLength_loop (js_shr (Num m) 7) [] @ buf"
      using True js_shr_less [OF True] by (intro less) simp
    have "writeVariableLength_loop m buf
          = writeVariableLength_loop (js_shr (Num m) 7) [] @ (m mod 128 + 128) # buf"
      by (subst loop_step [OF True], subst IH) simp
    moreover have "writeVariableLength_loop m []
          = writeVariableLength_loop (js_shr (Num m) 7) [] @ [m mod 128 + 128]"
      by (subst loop_step [OF True], subst IH) simp
    ultimately show ?thesis by simp
  next
    case False
    then show ?thesis by (simp add: loop_stop)
  qed
qed

lemma loop_snoc:
  "0 < n \<Longrightarrow> writeVariableLength_loop n []
     = writeVariableLength_loop (js_shr (Num n) 7) [] @ [n mod 128 + 128]"
  by (subst loop_step, assumption, subst loop_append) simp

lemma loop_continuation: "h \<in> set (writeVariableLength_loop m []) \<Longrightarrow> 128 \<le> h \<and> h < 256"
proof (induction "nat m" arbitrary: m rule: less_induct)
  case less
  show ?case
  proof (cases "0 < m")
    case True
    have "0 \<le> m mod 128" "m mod 128 < 128" by simp_all
    moreover have "h \<in> set (writeVariableLength_loop (js_shr (Num m) 7) []) \<Longrightarrow> 128 \<le> h \<and> h < 256"
      using True js_shr_less [OF True] by (intro less(1)) simp_all
    ultimately show ?thesis using less(2) by (auto simp: loop_snoc [OF True])
  next
    case False
    then show ?thesis using less(2) by (simp add: loop_stop)
  qed
qed

lemma writeVariableLength_shape:
  "writeVariableLength n = writeVariableLength_loop (js_shr (Num n) 7) [] @ [n mod 128]"
  unfolding writeVariableLength_def by (subst loop_append) (simp add: js_and_7F)

lemma js_shr_small: "0 \<le> n \<Longrightarrow> n < 2147483648 \<Longrightarrow> js_shr (Num n) 7 = n div 128"
  by (simp add: js_shr_def wrap32_id)

lemma uint_word_of_int_byte: "uint (word_of_int x :: byte) = x mod 256"
  by (simp add: uint_word_of_int)

lemma vlq_step_of_int: "vlq_step a (word_of_int h) = js_shl (Num a) 7 + h mod 128"
proof -
  have "h mod 256 mod 128 = h mod 128"
    by (simp add: mod_mod_cancel)
  then show ?thesis by (simp add: vlq_step_mod uint_word_of_int_byte)
qed

lemma js_shl_small: "0 \<le> a \<Longrightarrow> a < 16777216 \<Longrightarrow> js_shl (Num a) 7 = a * 128"
  by (simp add: js_shl_def wrap32_id)

lemma loop_value:
  "0 \<le> m \<Longrightarrow> m < 16777216 \<Longrightarrow>
     foldl vlq_step 0 (toUint8Array (writeVariableLength_loop m [])) = m"
proof (induction "nat m" arbitrary: m rule: less_induct)
  case less
  show ?case
  proof (cases "0 < m")
    case True
    have shr: "js_shr (Num m) 7 = m div 128"
      using less.prems by (intro js_shr_small) simp_all
    have d: "0 \<le> m div 128" "m div 128 < 16777216" "m div 128 < m"
      using True less.prems by (simp_all add: div_int_pos_iff int_div_less_self)
    have IH: "foldl vlq_step 0 (toUint8Array (writeVariableLength_loop (m div 128) [])) = m div 128"
      using d True by (intro less(1)) simp_all
    have shl: "js_shl (Num (m div 128)) 7 = m div 128 * 128"
      using d by (intro js_shl_small) simp_all
    have "foldl vlq_step 0 (toUint8Array (writeVariableLength_loop m []))
          = vlq_step (foldl vlq_step 0 (toUint8Array (writeVariableLength_loop (m div 128) [])))
              (word_of_int (m mod 128 + 128))"
      by (simp only: loop_snoc [OF True] shr toUint8Array_def map_append list.map foldl_append
            foldl.simps)
    also have "\<dots> = m div 128 * 128 + (m mod 128 + 128) mod 128"
      by (simp only: IH vlq_step_of_int shl)
    also have "\<dots> = m"
      by simp
    finally show ?thesis .
  next
    case False
    then show ?thesis using less.prems by (simp add: loop_stop toUint8Array_def)
  qed
qed


lemma loop_length:
  "128 ^ j \<le> m \<Longrightarrow> m < 128 ^ Suc j \<Longrightarrow> m < 2147483648 \<Longrightarrow>
     length (writeVariableLength_loop m []) = Suc j"
proof (induction j arbitrary: m)
  case 0
  then have pos: "0 < m" and small: "m div 128 = 0" by simp_all
  have shr: "js_shr (Num m) 7 = 0"
    using 0 small by (simp add: js_shr_small)
  show ?case
    by (simp add: loop_snoc [OF pos] shr loop_stop)
next
  case (Suc j)
  have "(0::int) < 128 ^ Suc j" by simp
  with Suc.prems have pos: "0 < m" by linarith
  have shr: "js_shr (Num m) 7 = m div 128"
    using Suc.prems pos by (simp add: js_shr_small)
  have "128 ^ j \<le> m div 128"
    using Suc.prems(1) by (simp add: zdiv_mono1 [of "128 * 128 ^ j" m 128, simplified])
  moreover have "m div 128 < 128 ^ Suc j"
    using Suc.prems(2) by (simp add: div_less_iff_less_mult flip: zdiv_zmult2_eq) 
  moreover have "m div 128 < 2147483648"
    using Suc.prems(3) pos by simp
  ultimately have "length (writeVariableLength_loop (m div 128) []) = Suc j"
    by (rule Suc.IH)
  then show ?case
    by (simp add: loop_snoc [OF pos] shr)
qed


subsection \<open>Reading what the writer wrote\<close>

lemma wrap32_bounds: "- 2147483648 \<le> wrap32 x" "wrap32 x < 2147483648"
  by (simp_all add: wrap32_def)

lemma toUint8Array_written:
  "toUint8Array (writeVariableLength n)
     = map word_of_int (writeVariableLength_loop (js_shr (Num n) 7) []) @ [word_of_int (n mod 128)]"
  by (simp only: writeVariableLength_shape toUint8Array_def map_append list.map)

lemma written_continuation:
  "c \<in> set (map word_of_int (writeVariableLength_loop m []) :: byte list) \<Longrightarrow> 128 \<le> uint c"
proof -
  assume "c \<in> set (map word_of_int (writeVariableLength_loop m []) :: byte list)"
  then obtain h where h: "h \<in> set (writeVariableLength_loop m [])" and c: "c = word_of_int h"
    by auto
  from loop_continuation [OF h] have "h mod 256 = h" by simp
  with loop_continuation [OF h] show ?thesis by (simp add: c uint_word_of_int_byte)
qed

lemma written_last: "uint (word_of_int (n mod 128) :: byte) = n mod 128"
proof -
  have "0 \<le> n mod 128" "n mod 128 < 128" by simp_all
  then have "n mod 128 mod 256 = n mod 128" by simp
  then show ?thesis by (simp only: uint_word_of_int_byte)
qed

lemma written_last_small: "uint (word_of_int (n mod 128) :: byte) < 128"
proof -
  have "n mod 128 < 128" by simp
  then show ?thesis by (simp only: written_last)
qed

lemma read_written:
  "readVariableLengthNumber (pre @ toUint8Array (writeVariableLength n) @ post) (int (length pre))
     = (foldl vlq_step 0 (toUint8Array (writeVariableLength n)),
        int (length pre) + int (length (writeVariableLength n)))"
proof -
  let ?cs = "map word_of_int (writeVariableLength_loop (js_shr (Num n) 7) []) :: byte list"
  let ?b = "word_of_int (n mod 128) :: byte"
  have "readVariableLengthNumber_loop (pre @ ?cs @ ?b # post) (int (length pre)) 0
        = (foldl vlq_step 0 (?cs @ [?b]), int (length pre) + int (length ?cs) + 1)"
    by (rule readVLQ_loop_shape) (blast intro: written_continuation, rule written_last_small)
  moreover have "length (writeVariableLength n) = length ?cs + 1"
    by (simp add: writeVariableLength_shape)
  ultimately show ?thesis
    by (simp add: readVariableLengthNumber_def toUint8Array_written)
qed

lemma written_value:
  "0 \<le> n \<Longrightarrow> n < 2147483648 \<Longrightarrow> foldl vlq_step 0 (toUint8Array (writeVariableLength n)) = n"
proof -
  assume n: "0 \<le> n" "n < 2147483648"
  have shr: "js_shr (Num n) 7 = n div 128" using n by (rule js_shr_small)
  have d: "0 \<le> n div 128" "n div 128 < 16777216"
    using n by (simp_all add: div_int_pos_iff)
  have "foldl vlq_step 0 (toUint8Array (writeVariableLength n))
        = vlq_step (foldl vlq_step 0 (toUint8Array (writeVariableLength_loop (n div 128) [])))
            (word_of_int (n mod 128))"
  proof -
    have "toUint8Array (writeVariableLength n)
          = toUint8Array (writeVariableLength_loop (n div 128) []) @ [word_of_int (n mod 128)]"
      unfolding toUint8Array_written shr by (simp only: toUint8Array_def)
    then show ?thesis by (simp only: foldl_append foldl.simps)
  qed
  also have "\<dots> = n div 128 * 128 + n mod 128 mod 128"
    using d by (simp only: loop_value vlq_step_of_int js_shl_small)
  also have "\<dots> = n" by simp
  finally show ?thesis .
qed

section \<open>Lemmas on the decoder\<close>

subsection \<open>Reading primitives\<close>

lemma readNumber_one:
  "readNumber 1 p = (js_add (Num 0) (byteAt (data p) (dataOffset p)), p\<lparr>dataOffset := dataOffset p + 1\<rparr>)"
  by (simp add: readNumber_def js_shl_def wrap32_def)

lemma readVLQ_fields:
  "readVLQ p = (n, p1) \<Longrightarrow> p1 = p\<lparr>dataOffset := dataOffset p1\<rparr>"
  by (auto simp: readVLQ_def split: prod.splits)

lemma slice_first_four: "slice d 0 4 = take 4 d"
  by (simp add: slice_def Let_def min_def)

lemma tag_MThd_bytes: "tag_MThd = [0x4D, 0x54, 0x68, 0x64]"
  by (simp add: tag_MThd_def)

lemma tag_MTrk_bytes: "tag_MTrk = [0x4D, 0x54, 0x72, 0x6B]"
  by (simp add: tag_MTrk_def)

subsection \<open>One turn of the track loop on a well-formed event\<close>

lemma readVLQ_chunk:
  assumes "data p = pre @ cs @ b # rest" and "dataOffset p = int (length pre)"
    and "\<forall>x \<in> set cs. 128 \<le> uint x" and "uint b < 128"
  shows "readVLQ p = (foldl vlq_step 0 (cs @ [b]), p\<lparr>dataOffset := int (length pre) + int (length cs) + 1\<rparr>)"
  using readVLQ_loop_shape [OF assms(3,4), of pre rest 0]
  by (simp add: readVLQ_def readVariableLengthNumber_def assms(1,2))

lemma kind_of_status: "js_and (Num (uint (st::byte))) 0xF0 = 16 * (uint st div 16)"
proof -
  have "uint st < 256" by (rule uint_byte_bounds)
  then have "uint st div 16 < 16" by simp
  moreover have "0 \<le> uint st div 16" by (simp add: div_int_pos_iff)
  ultimately have "uint st div 16 mod 16 = uint st div 16" by simp
  moreover have "wrap32 (uint st) = uint st"
    using uint_byte_bounds [of st] by (intro wrap32_id) linarith+
  moreover have "wrap32 240 = 240" by (intro wrap32_id) simp_all
  ultimately show ?thesis by (simp add: js_and_def int_and_240)
qed


lemma vlq_single: "uint (b::byte) < 128 \<Longrightarrow> foldl vlq_step 0 [b] = uint b"
  by (simp add: vlq_step_mod js_shl_def wrap32_def)

lemma header_of_offset [simp]: "header_of (p\<lparr>dataOffset := off\<rparr>) = header_of p"
  by (simp add: header_of_def)

lemma header_of_lastEventType [simp]: "header_of (p\<lparr>lastEventType := t\<rparr>) = header_of p"
  by (simp add: header_of_def)

lemma header_of_pushEvent [simp]: "header_of (pushEvent T ty d p) = header_of p"
  by (simp add: header_of_def pushEvent_def)

lemma dataOffset_pushEvent [simp]: "dataOffset (pushEvent T ty d p) = dataOffset p"
  by (simp add: pushEvent_def)

lemma two_data_bytes:
  "header_of (parseNoteOff T ch p) = header_of p \<and> dataOffset (parseNoteOff T ch p) = dataOffset p + 2"
  "header_of (parseController T ch p) = header_of p \<and> dataOffset (parseController T ch p) = dataOffset p + 2"
  "header_of (parsePitchBend T ch p) = header_of p \<and> dataOffset (parsePitchBend T ch p) = dataOffset p + 2"
  by (simp_all add: parseNoteOff_def parseController_def parsePitchBend_def readNumber_def)

lemma note_on_data_bytes:
  assumes "byteAt (data p) (dataOffset p + 1) = Num v" and "v \<noteq> 0"
  shows "header_of (parseNoteOn T ch p) = header_of p \<and> dataOffset (parseNoteOn T ch p) = dataOffset p + 2"
proof -
  have "readNumber 1 (p\<lparr>dataOffset := dataOffset p + 1\<rparr>)
        = (Num v, p\<lparr>dataOffset := dataOffset p + 1 + 1\<rparr>)"
    using assms(1) by (simp add: readNumber_one)
  then show ?thesis
    using assms(2) by (simp add: parseNoteOn_def readNumber_one [of p])
qed

lemma byteAt_after:
  "data p = pre @ mid @ x # rest \<Longrightarrow> byteAt (data p) (int (length pre) + int (length mid)) = Num (uint x)"
  using byteAt_append [of "pre @ mid" x rest] by simp

lemma step_voice:
  assumes dat: "data p = pre @ (cs @ [b, st, d1, d2]) @ post"
    and off: "dataOffset p = int (length pre)"
    and cs: "\<forall>x \<in> set cs. 128 \<le> uint x" and b: "uint b < 128"
    and kind: "uint st div 16 \<in> {8, 11, 14} \<or> (uint st div 16 = 9 \<and> d2 \<noteq> 0)"
  shows "\<exists>p'. parseTrackEvent T p = Inr (T + foldl vlq_step 0 (cs @ [b]), p')
            \<and> header_of p' = header_of p
            \<and> dataOffset p' = int (length pre) + int (length (cs @ [b, st, d1, d2]))"
proof -
  let ?o = "int (length pre) + int (length cs) + 1"
  define delta where "delta = foldl vlq_step 0 (cs @ [b])"
  let ?d = "delta"
  let ?p3 = "p\<lparr>dataOffset := ?o + 1\<rparr>"
  have dat1: "data p = pre @ cs @ b # (st # d1 # d2 # post)"
    using dat by simp
  have vlq: "readVLQ p = (?d, p\<lparr>dataOffset := ?o\<rparr>)"
    unfolding delta_def using dat1 off cs b by (rule readVLQ_chunk)
  have "data p = pre @ (cs @ [b]) @ st # (d1 # d2 # post)"
    using dat by simp
  then have "byteAt (data p) (int (length pre) + int (length (cs @ [b]))) = Num (uint st)"
    by (rule byteAt_after)
  then have st_at: "byteAt (data p) ?o = Num (uint st)"
    by (simp add: ac_simps)
  have "data p = pre @ (cs @ [b, st, d1]) @ d2 # post"
    using dat by simp
  then have "byteAt (data p) (int (length pre) + int (length (cs @ [b, st, d1]))) = Num (uint d2)"
    by (rule byteAt_after)
  then have d2_at: "byteAt (data ?p3) (dataOffset ?p3 + 1) = Num (uint d2)"
    by (simp add: ac_simps)
  have rd: "readNumber 1 (p\<lparr>dataOffset := ?o\<rparr>) = (Num (uint st), ?p3)"
    using st_at by (simp add: readNumber_one)
  have big: "128 \<le> uint st"
    using kind by auto
  have turn: "parseTrackEvent T p
      = (case dispatchEvent (T + ?d) (Num (uint st)) ?p3 of
           Inl e \<Rightarrow> Inl e
         | Inr p4 \<Rightarrow> Inr (T + ?d, p4\<lparr>lastEventType := Num (uint st)\<rparr>))"
    using big by (simp add: parseTrackEvent_def vlq rd Let_def)
  have "\<exists>p4. dispatchEvent (T + ?d) (Num (uint st)) ?p3 = Inr p4
          \<and> header_of p4 = header_of p \<and> dataOffset p4 = ?o + 1 + 2"
  proof -
    consider "uint st div 16 = 8" | "uint st div 16 = 11" | "uint st div 16 = 14"
      | "uint st div 16 = 9" "d2 \<noteq> 0"
      using kind by auto
    then show ?thesis
    proof cases
      case 1
      then show ?thesis
        using two_data_bytes(1) [of "T + ?d" _ ?p3]
        by (simp add: dispatchEvent_def kind_of_status Let_def)
    next
      case 2
      then show ?thesis
        using two_data_bytes(2) [of "T + ?d" _ ?p3]
        by (simp add: dispatchEvent_def kind_of_status Let_def)
    next
      case 3
      then show ?thesis
        using two_data_bytes(3) [of "T + ?d" _ ?p3]
        by (simp add: dispatchEvent_def kind_of_status Let_def)
    next
      case 4
      have "uint d2 \<noteq> 0" using 4(2) by (simp add: uint_0_iff)
      with d2_at have "header_of (parseNoteOn (T + ?d) (js_and (Num (uint st)) 0x0F) ?p3) = header_of ?p3
          \<and> dataOffset (parseNoteOn (T + ?d) (js_and (Num (uint st)) 0x0F) ?p3) = dataOffset ?p3 + 2"
        by (rule note_on_data_bytes)
      then show ?thesis
        using 4(1) by (simp add: dispatchEvent_def kind_of_status Let_def)
    qed
  qed
  then obtain p4 where p4: "dispatchEvent (T + ?d) (Num (uint st)) ?p3 = Inr p4"
    "header_of p4 = header_of p" "dataOffset p4 = ?o + 1 + 2"
    by blast
  have "parseTrackEvent T p = Inr (T + ?d, p4\<lparr>lastEventType := Num (uint st)\<rparr>)"
    unfolding turn p4(1) by simp
  moreover have "header_of (p4\<lparr>lastEventType := Num (uint st)\<rparr>) = header_of p"
    by (simp add: p4(2))
  moreover have "dataOffset (p4\<lparr>lastEventType := Num (uint st)\<rparr>)
      = int (length pre) + int (length (cs @ [b, st, d1, d2]))"
    by (simp add: p4(3))
  ultimately show ?thesis unfolding delta_def by blast
qed


lemma turn_with_status:
  assumes dat: "data p = pre @ cs @ b # st # rest"
    and off: "dataOffset p = int (length pre)"
    and cs: "\<forall>x \<in> set cs. 128 \<le> uint x" and b: "uint b < 128"
    and big: "128 \<le> uint st"
  shows "parseTrackEvent T p
      = (case dispatchEvent (T + foldl vlq_step 0 (cs @ [b])) (Num (uint st))
                (p\<lparr>dataOffset := int (length pre) + int (length cs) + 2\<rparr>) of
           Inl e \<Rightarrow> Inl e
         | Inr p4 \<Rightarrow> Inr (T + foldl vlq_step 0 (cs @ [b]), p4\<lparr>lastEventType := Num (uint st)\<rparr>))"
proof -
  define delta where "delta = foldl vlq_step 0 (cs @ [b])"
  let ?o = "int (length pre) + int (length cs) + 1"
  have vlq: "readVLQ p = (delta, p\<lparr>dataOffset := ?o\<rparr>)"
    unfolding delta_def using dat off cs b by (rule readVLQ_chunk)
  have "data p = pre @ (cs @ [b]) @ st # rest"
    using dat by simp
  then have "byteAt (data p) (int (length pre) + int (length (cs @ [b]))) = Num (uint st)"
    by (rule byteAt_after)
  then have st_at: "byteAt (data p) ?o = Num (uint st)"
    by (simp add: ac_simps)
  have rd: "readNumber 1 (p\<lparr>dataOffset := ?o\<rparr>) = (Num (uint st), p\<lparr>dataOffset := ?o + 1\<rparr>)"
    using st_at by (simp add: readNumber_one)
  have "parseTrackEvent T p
      = (case dispatchEvent (T + delta) (Num (uint st)) (p\<lparr>dataOffset := ?o + 1\<rparr>) of
           Inl e \<Rightarrow> Inl e
         | Inr p4 \<Rightarrow> Inr (T + delta, p4\<lparr>lastEventType := Num (uint st)\<rparr>))"
    using big by (simp add: parseTrackEvent_def vlq rd Let_def)
  then show ?thesis
    unfolding delta_def by (simp add: ac_simps)
qed

lemma parseMetaEvent_at:
  assumes dat: "data p = pre @ ty # len # rest"
    and off: "dataOffset p = int (length pre)"
    and len: "uint len < 128"
  shows "parseMetaEvent T p
      = metaSwitch T (Num (uint ty)) (uint len) (p\<lparr>dataOffset := int (length pre) + 2\<rparr>)"
proof -
  let ?p1 = "p\<lparr>dataOffset := int (length pre) + 1\<rparr>"
  have "byteAt (data p) (int (length pre)) = Num (uint ty)"
    unfolding dat by (rule byteAt_append)
  then have rd: "readNumber 1 p = (Num (uint ty), ?p1)"
    by (simp add: readNumber_one off)
  have "data ?p1 = (pre @ [ty]) @ [] @ len # rest" "dataOffset ?p1 = int (length (pre @ [ty]))"
    by (simp_all add: dat)
  then have "readVLQ ?p1 = (foldl vlq_step 0 ([] @ [len]),
      ?p1\<lparr>dataOffset := int (length (pre @ [ty])) + int (length ([]::byte list)) + 1\<rparr>)"
    using len by (intro readVLQ_chunk) simp_all
  then have vlq: "readVLQ ?p1 = (uint len, p\<lparr>dataOffset := int (length pre) + 2\<rparr>)"
    using len vlq_single [OF len] by simp
  show ?thesis
    by (simp add: parseMetaEvent_def rd vlq)
qed

lemma meta_status: "dispatchEvent T (Num 255) p = Inr (parseMetaEvent T p)"
  by (simp add: dispatchEvent_def js_and_def wrap32_def Let_def)

lemma step_set_tempo:
  assumes dat: "data p = pre @ (cs @ [b, 0xFF, 0x51, 0x03, x1, x2, x3]) @ post"
    and off: "dataOffset p = int (length pre)"
    and cs: "\<forall>x \<in> set cs. 128 \<le> uint x" and b: "uint b < 128"
  shows "\<exists>p'. parseTrackEvent T p = Inr (T + foldl vlq_step 0 (cs @ [b]), p')
            \<and> header_of p' = header_of p
            \<and> dataOffset p' = int (length pre) + int (length (cs @ [b, 0xFF, 0x51, 0x03, x1, x2, x3]))"
proof -
  define delta where "delta = foldl vlq_step 0 (cs @ [b])"
  let ?p3 = "p\<lparr>dataOffset := int (length pre) + int (length cs) + 2\<rparr>"
  have "data p = pre @ cs @ b # 0xFF # (0x51 # 0x03 # x1 # x2 # x3 # post)"
    using dat by simp
  then have turn: "parseTrackEvent T p
      = (case dispatchEvent (T + delta) (Num (uint (0xFF::byte))) ?p3 of
           Inl e \<Rightarrow> Inl e
         | Inr p4 \<Rightarrow> Inr (T + delta, p4\<lparr>lastEventType := Num (uint (0xFF::byte))\<rparr>))"
    unfolding delta_def using off cs b by (rule turn_with_status) simp
  have "data ?p3 = (pre @ cs @ [b, 0xFF]) @ 0x51 # 0x03 # (x1 # x2 # x3 # post)"
    "dataOffset ?p3 = int (length (pre @ cs @ [b, 0xFF]))"
    using dat by simp_all
  then have m: "parseMetaEvent (T + delta) ?p3
      = metaSwitch (T + delta) (Num (uint (0x51::byte))) (uint (0x03::byte))
          (?p3\<lparr>dataOffset := int (length (pre @ cs @ [b, 0xFF])) + 2\<rparr>)"
    by (rule parseMetaEvent_at) simp
  have q: "?p3\<lparr>dataOffset := int (length (pre @ cs @ [b, 0xFF])) + 2\<rparr>
      = p\<lparr>dataOffset := int (length pre) + int (length cs) + 4\<rparr>"
    by simp
  have u: "uint (0x51::byte) = 81" "uint (0x03::byte) = 3"
    by simp_all
  have meta: "parseMetaEvent (T + delta) ?p3
      = parseSetTempo (T + delta) 3 (p\<lparr>dataOffset := int (length pre) + int (length cs) + 4\<rparr>)"
    unfolding m q u by (simp add: metaSwitch_def)
  let ?p' = "(parseSetTempo (T + delta) 3 (p\<lparr>dataOffset := int (length pre) + int (length cs) + 4\<rparr>))
               \<lparr>lastEventType := Num 255\<rparr>"
  have "parseTrackEvent T p = Inr (T + delta, ?p')"
    unfolding turn by (simp add: meta_status meta)
  moreover have "header_of ?p' = header_of p"
    by (simp add: parseSetTempo_def readNumber_def header_of_def)
  moreover have "dataOffset ?p' = int (length pre) + int (length (cs @ [b, 0xFF, 0x51, 0x03, x1, x2, x3]))"
    by (simp add: parseSetTempo_def readNumber_def)
  ultimately show ?thesis unfolding delta_def by blast
qed

lemma step_end_of_track:
  assumes dat: "data p = pre @ (cs @ [b, 0xFF, 0x2F, 0x00]) @ post"
    and off: "dataOffset p = int (length pre)"
    and cs: "\<forall>x \<in> set cs. 128 \<le> uint x" and b: "uint b < 128"
  shows "\<exists>p'. parseTrackEvent T p = Inr (T + foldl vlq_step 0 (cs @ [b]), p')
            \<and> header_of p' = header_of p
            \<and> dataOffset p' = int (length pre) + int (length (cs @ [b, 0xFF, 0x2F, 0x00]))"
proof -
  define delta where "delta = foldl vlq_step 0 (cs @ [b])"
  let ?p3 = "p\<lparr>dataOffset := int (length pre) + int (length cs) + 2\<rparr>"
  have "data p = pre @ cs @ b # 0xFF # (0x2F # 0x00 # post)"
    using dat by simp
  then have turn: "parseTrackEvent T p
      = (case dispatchEvent (T + delta) (Num (uint (0xFF::byte))) ?p3 of
           Inl e \<Rightarrow> Inl e
         | Inr p4 \<Rightarrow> Inr (T + delta, p4\<lparr>lastEventType := Num (uint (0xFF::byte))\<rparr>))"
    unfolding delta_def using off cs b by (rule turn_with_status) simp
  have "data ?p3 = (pre @ cs @ [b, 0xFF]) @ 0x2F # 0x00 # post"
    "dataOffset ?p3 = int (length (pre @ cs @ [b, 0xFF]))"
    using dat by simp_all
  then have m: "parseMetaEvent (T + delta) ?p3
      = metaSwitch (T + delta) (Num (uint (0x2F::byte))) (uint (0x00::byte))
          (?p3\<lparr>dataOffset := int (length (pre @ cs @ [b, 0xFF])) + 2\<rparr>)"
    by (rule parseMetaEvent_at) simp
  have q: "?p3\<lparr>dataOffset := int (length (pre @ cs @ [b, 0xFF])) + 2\<rparr>
      = p\<lparr>dataOffset := int (length pre) + int (length cs) + 4\<rparr>"
    by simp
  have u: "uint (0x2F::byte) = 47" "uint (0x00::byte) = 0"
    by simp_all
  have meta: "parseMetaEvent (T + delta) ?p3
      = p\<lparr>dataOffset := int (length pre) + int (length cs) + 4\<rparr>"
    unfolding m q u by (simp add: metaSwitch_def parseEndOfTrack_def)
  let ?p' = "p\<lparr>dataOffset := int (length pre) + int (length cs) + 4, lastEventType := Num 255\<rparr>"
  have "parseTrackEvent T p = Inr (T + delta, ?p')"
    unfolding turn by (simp add: meta_status meta)
  moreover have "header_of ?p' = header_of p"
    by (simp add: header_of_def)
  moreover have "dataOffset ?p' = int (length pre) + int (length (cs @ [b, 0xFF, 0x2F, 0x00]))"
    by simp
  ultimately show ?thesis unfolding delta_def by blast
qed

lemma step_chunk:
  assumes "event_chunk c" and "data p = pre @ c @ post" and "dataOffset p = int (length pre)"
  shows "\<exists>T' p'. parseTrackEvent T p = Inr (T', p')
            \<and> header_of p' = header_of p
            \<and> dataOffset p' = int (length pre) + int (length c)"
  using assms
proof (cases rule: event_chunk.cases)
  case (voice cs b st d2 d1)
  then show ?thesis using step_voice [of p pre cs b st d1 d2 post T] assms(2,3) by blast
next
  case (set_tempo cs b x1 x2 x3)
  then show ?thesis using step_set_tempo [of p pre cs b x1 x2 x3 post T] assms(2,3) by blast
next
  case (end_of_track cs b)
  then show ?thesis using step_end_of_track [of p pre cs b post T] assms(2,3) by blast
qed

subsection \<open>The track loop on a sequence of well-formed events\<close>

text \<open>
  The loop returns on such a sequence, whatever the end offset \<open>E\<close> it is given up to the
  end of the sequence, and leaves the header fields as they were.
\<close>

lemma parse_chunks:
  assumes "\<forall>c \<in> set chunks. event_chunk c"
    and "data p = pre @ concat chunks @ post"
    and "dataOffset p = int (length pre)"
    and "E \<le> int (length pre) + int (length (concat chunks))"
  shows "\<exists>p'. parseTrackEvents (Num E) T p = Some (Inr p') \<and> header_of p' = header_of p"
  using assms
proof (induction chunks arbitrary: pre T p)
  case Nil
  then have "\<not> js_lt (Num (dataOffset p)) (Num E)" by simp
  then have "parseTrackEvents (Num E) T p = Some (Inr p)"
    by (subst parseTrackEvents.simps) simp
  then show ?case by simp
next
  case (Cons c chunks)
  show ?case
  proof (cases "dataOffset p < E")
    case False
    then have "parseTrackEvents (Num E) T p = Some (Inr p)"
      by (subst parseTrackEvents.simps) simp
    then show ?thesis by simp
  next
    case True
    have c: "event_chunk c" using Cons.prems(1) by simp
    have dat: "data p = pre @ c @ (concat chunks @ post)"
      using Cons.prems(2) by simp
    obtain T' p1 where p1: "parseTrackEvent T p = Inr (T', p1)" "header_of p1 = header_of p"
      "dataOffset p1 = int (length pre) + int (length c)"
      using step_chunk [OF c dat Cons.prems(3), of T] by blast
    have unfold: "parseTrackEvents (Num E) T p = parseTrackEvents (Num E) T' p1"
      using True by (subst parseTrackEvents.simps) (simp add: p1(1))
    have "data p1 = data p" using p1(2) by (simp add: header_of_def)
    then have dat1: "data p1 = (pre @ c) @ concat chunks @ post"
      using dat by simp
    have off1: "dataOffset p1 = int (length (pre @ c))"
      using p1(3) by simp
    have bound: "E \<le> int (length (pre @ c)) + int (length (concat chunks))"
      using Cons.prems(4) by simp
    have "\<exists>p'. parseTrackEvents (Num E) T' p1 = Some (Inr p') \<and> header_of p' = header_of p1"
    proof (rule Cons.IH [OF _ dat1 off1 bound])
      show "\<forall>c \<in> set chunks. event_chunk c" using Cons.prems(1) by simp
    qed
    then show ?thesis by (simp add: unfold p1(2))
  qed
qed

subsection \<open>The chunk length written by \<open>write32\<close>, read back\<close>

lemma readNumber_four:
  assumes "data p = pre @ [x3, x2, x1, x0] @ post" and "dataOffset p = int (length pre)"
  shows "readNumber 4 p
     = (Num (js_shl (Num (js_shl (Num (js_shl (Num (uint x3)) 8 + uint x2)) 8 + uint x1)) 8 + uint x0),
        p\<lparr>dataOffset := int (length pre) + 4\<rparr>)"
proof -
  have up: "[0..<nat 4] = [0, 1, 2, 3]"
    by (simp add: upt_rec)
  have b: "byteAt (data p) (int (length pre)) = Num (uint x3)"
    "byteAt (data p) (int (length pre) + 1) = Num (uint x2)"
    "byteAt (data p) (int (length pre) + 2) = Num (uint x1)"
    "byteAt (data p) (int (length pre) + 3) = Num (uint x0)"
    using byteAt_after [of p pre "[]" x3 "x2 # x1 # x0 # post"]
      byteAt_after [of p pre "[x3]" x2 "x1 # x0 # post"]
      byteAt_after [of p pre "[x3, x2]" x1 "x0 # post"]
      byteAt_after [of p pre "[x3, x2, x1]" x0 post] assms(1)
    by simp_all
  have z: "js_shl (Num 0) 8 = 0" by (simp add: js_shl_def wrap32_def)
  show ?thesis
    unfolding readNumber_def up assms(2) by (simp add: b z)
qed

lemma base256:
  "(w::int) mod 4294967296
     = 16777216 * (w div 16777216 mod 256) + 65536 * (w div 65536 mod 256)
       + 256 * (w div 256 mod 256) + w mod 256"
proof -
  have m: "(4294967296::int) = 16777216 * 256" "(16777216::int) = 65536 * 256"
    "(65536::int) = 256 * 256"
    by simp_all
  have "w mod 4294967296 = w mod (16777216 * 256)"
    by (simp only: m(1) [symmetric])
  also have "\<dots> = 16777216 * (w div 16777216 mod 256) + w mod 16777216"
    by (rule zmod_zmult2_eq) simp
  also have "w mod 16777216 = w mod (65536 * 256)"
    by (simp only: m(2) [symmetric])
  also have "\<dots> = 65536 * (w div 65536 mod 256) + w mod 65536"
    by (rule zmod_zmult2_eq) simp
  also have "w mod 65536 = w mod (256 * 256)"
    by (simp only: m(3) [symmetric])
  also have "\<dots> = 256 * (w div 256 mod 256) + w mod 256"
    by (rule zmod_zmult2_eq) simp
  finally show ?thesis by (simp only: add.assoc)
qed

lemma read_write32:
  assumes dat: "data p = pre @ toUint8Array (write32 n) @ post"
    and off: "dataOffset p = int (length pre)" and n: "0 \<le> n"
  shows "\<exists>v. readNumber 4 p = (Num v, p\<lparr>dataOffset := int (length pre) + 4\<rparr>) \<and> v \<le> n"
proof -
  define w where "w = wrap32 n"
  define b3 where "b3 = w div 16777216 mod 256"
  define b2 where "b2 = w div 65536 mod 256"
  define b1 where "b1 = w div 256 mod 256"
  define b0 where "b0 = w mod 256"
  have r: "0 \<le> b3" "b3 < 256" "0 \<le> b2" "b2 < 256" "0 \<le> b1" "b1 < 256" "0 \<le> b0" "b0 < 256"
    by (simp_all add: b3_def b2_def b1_def b0_def)
  have "n mod 256 = w mod 256"
    unfolding w_def by (rule wrap32_mod_dvd [symmetric]) simp
  then have w32: "write32 n = [b3, b2, b1, b0]"
    by (simp add: write32_def js_and_FF js_shr_def b3_def b2_def b1_def b0_def w_def)
  have u: "uint (word_of_int b3 :: byte) = b3" "uint (word_of_int b2 :: byte) = b2"
    "uint (word_of_int b1 :: byte) = b1" "uint (word_of_int b0 :: byte) = b0"
    using r by (simp_all add: uint_word_of_int_byte)
  have "data p = pre @ [word_of_int b3, word_of_int b2, word_of_int b1, word_of_int b0] @ post"
    using dat by (simp add: w32 toUint8Array_def)
  from readNumber_four [OF this off]
  have rd: "readNumber 4 p
     = (Num (js_shl (Num (js_shl (Num (js_shl (Num b3) 8 + b2)) 8 + b1)) 8 + b0),
        p\<lparr>dataOffset := int (length pre) + 4\<rparr>)"
    by (simp only: u)
  define a2 where "a2 = b3 * 256 + b2"
  define a3 where "a3 = a2 * 256 + b1"
  have r2: "0 \<le> a2" "a2 < 65536"
    unfolding a2_def using r by linarith+
  have r3: "0 \<le> a3" "a3 < 16777216"
    unfolding a3_def using r r2 by linarith+
  have "wrap32 b3 = b3"
    using r by (intro wrap32_id) linarith+
  moreover have "wrap32 (b3 * 256) = b3 * 256"
    using r by (intro wrap32_id) linarith+
  ultimately have s1: "js_shl (Num b3) 8 + b2 = a2"
    by (simp add: js_shl_def a2_def)
  have "wrap32 a2 = a2"
    using r2 by (intro wrap32_id) linarith+
  moreover have "wrap32 (a2 * 256) = a2 * 256"
    using r2 by (intro wrap32_id) linarith+
  ultimately have s2: "js_shl (Num a2) 8 + b1 = a3"
    by (simp add: js_shl_def a3_def)
  have "wrap32 a3 = a3"
    using r3 by (intro wrap32_id) linarith+
  moreover have "wrap32 (a3 * 256) \<le> a3 * 256"
    using r3 by (intro wrap32_le) linarith
  ultimately have s3: "js_shl (Num a3) 8 \<le> a3 * 256"
    by (simp add: js_shl_def)
  have "w mod 4294967296 = 16777216 * b3 + 65536 * b2 + 256 * b1 + b0"
    unfolding b3_def b2_def b1_def b0_def by (rule base256)
  moreover have "w mod 4294967296 = n mod 4294967296"
    using wrap32_mod [of n] by (simp add: w_def)
  moreover have "n mod 4294967296 \<le> n"
    using n by (intro zmod_le_nonneg_dividend)
  moreover have "a3 * 256 + b0 = 16777216 * b3 + 65536 * b2 + 256 * b1 + b0"
    unfolding a3_def a2_def by (simp add: algebra_simps)
  ultimately have "a3 * 256 + b0 \<le> n"
    by linarith
  with s3 have le: "js_shl (Num a3) 8 + b0 \<le> n"
    by linarith
  have "readNumber 4 p = (Num (js_shl (Num a3) 8 + b0), p\<lparr>dataOffset := int (length pre) + 4\<rparr>)"
    unfolding rd s1 s2 by (rule refl)
  with le show ?thesis by blast
qed

section \<open>Lemmas on the encoder\<close>

subsection \<open>The track written by the encoder is a sequence of events\<close>

lemma chunked_Nil: "chunked []"
  unfolding chunked_def by (rule exI [of _ "[]"]) simp

lemma chunked_single: "event_chunk c \<Longrightarrow> chunked c"
  unfolding chunked_def by (rule exI [of _ "[c]"]) simp

lemma chunked_append: "chunked xs \<Longrightarrow> chunked ys \<Longrightarrow> chunked (xs @ ys)"
proof -
  assume "chunked xs" and "chunked ys"
  then obtain cx cy where "xs = concat cx" "\<forall>c \<in> set cx. event_chunk c"
    "ys = concat cy" "\<forall>c \<in> set cy. event_chunk c"
    unfolding chunked_def by blast
  then have "xs @ ys = concat (cx @ cy) \<and> (\<forall>c \<in> set (cx @ cy). event_chunk c)"
    by auto
  then show ?thesis unfolding chunked_def by blast
qed

lemma chunked_concat_map: "\<forall>x \<in> set xs. chunked (f x) \<Longrightarrow> chunked (concat (map f xs))"
  by (induction xs) (simp_all add: chunked_Nil chunked_append)

lemma toUint8Array_append: "toUint8Array (xs @ ys) = toUint8Array xs @ toUint8Array ys"
  by (simp add: toUint8Array_def)

lemma toUint8Array_concat: "toUint8Array (concat xss) = concat (map toUint8Array xss)"
  unfolding toUint8Array_def by (rule map_concat)

lemma length_toUint8Array: "length (toUint8Array xs) = length xs"
  by (simp add: toUint8Array_def)

lemma status_kind:
  assumes "ch \<in> set channelPool"
  shows "uint (word_of_int (js_or (Num 0x80) ch) :: byte) div 16 = 8"
    and "uint (word_of_int (js_or (Num 0x90) ch) :: byte) div 16 = 9"
    and "uint (word_of_int (js_or (Num 0xB0) ch) :: byte) div 16 = 11"
    and "uint (word_of_int (js_or (Num 0xE0) ch) :: byte) div 16 = 14"
  using assms by (auto simp: channelPool_def js_or_def wrap32_def)


lemma chunked_tempo: "chunked (toUint8Array (tempoBytes m))"
proof -
  have "event_chunk ([] @ [0, 0xFF, 0x51, 0x03,
      word_of_int (js_and (Num (js_shr m 16)) 0xFF),
      word_of_int (js_and (Num (js_shr m 8)) 0xFF),
      word_of_int (js_and m 0xFF)])"
    by (rule event_chunk.set_tempo) simp_all
  then have "event_chunk (toUint8Array (tempoBytes m))"
    by (simp add: tempoBytes_def toUint8Array_def)
  then show ?thesis by (rule chunked_single)
qed

lemma controller_chunk:
  "ch \<in> set channelPool \<Longrightarrow> chunked (toUint8Array [0x00, js_or (Num 0xB0) ch, c, v])"
proof -
  assume ch: "ch \<in> set channelPool"
  have "event_chunk ([] @ [0, word_of_int (js_or (Num 0xB0) ch), word_of_int c, word_of_int v])"
    by (rule event_chunk.voice) (simp_all add: status_kind(3) [OF ch])
  then have "event_chunk (toUint8Array [0x00, js_or (Num 0xB0) ch, c, v])"
    by (simp add: toUint8Array_def)
  then show ?thesis by (rule chunked_single)
qed

lemma chunked_bendRange: "ch \<in> set channelPool \<Longrightarrow> chunked (toUint8Array (bendRangeBytes ch))"
proof -
  assume ch: "ch \<in> set channelPool"
  have "bendRangeBytes ch
      = [0x00, js_or (Num 0xB0) ch, 101, 0] @ [0x00, js_or (Num 0xB0) ch, 100, 0]
        @ [0x00, js_or (Num 0xB0) ch, 6, PITCH_BEND_RANGE_SEMITONES]
        @ [0x00, js_or (Num 0xB0) ch, 38, 0] @ [0x00, js_or (Num 0xB0) ch, 101, 127]
        @ [0x00, js_or (Num 0xB0) ch, 100, 127]"
    by (simp add: bendRangeBytes_def)
  then show ?thesis
    by (simp only: toUint8Array_append chunked_append controller_chunk [OF ch])
qed

lemma chunked_bendRanges: "chunked (toUint8Array (concat (map bendRangeBytes channelPool)))"
  unfolding toUint8Array_concat map_map
  by (rule chunked_concat_map) (simp add: chunked_bendRange)

lemma chunked_end_of_track: "chunked (toUint8Array (writeVariableLength 0 @ [0xFF, 0x2F, 0x00]))"
proof -
  have "writeVariableLength 0 = [0]"
    by (simp add: writeVariableLength_shape js_shr_small loop_stop)
  moreover have "event_chunk ([] @ [0, 0xFF, 0x2F, 0x00])"
    by (rule event_chunk.end_of_track) simp_all
  ultimately have "event_chunk (toUint8Array (writeVariableLength 0 @ [0xFF, 0x2F, 0x00]))"
    by (simp add: toUint8Array_def)
  then show ?thesis by (rule chunked_single)
qed

lemma velocity_byte: "1 \<le> v \<Longrightarrow> v \<le> 127 \<Longrightarrow> (word_of_int v :: byte) \<noteq> 0"
proof -
  assume v: "1 \<le> v" "v \<le> 127"
  then have "uint (word_of_int v :: byte) = v"
    by (simp add: uint_word_of_int_byte)
  with v show ?thesis by (auto simp: uint_0_iff [symmetric] simp del: uint_0_iff)
qed

lemma chunked_emit:
  assumes ch: "channel e \<in> set channelPool"
    and vel: "\<forall>t n v c. e = NoteOn t n v c \<longrightarrow> 1 \<le> v \<and> v \<le> 127"
  shows "chunked (toUint8Array (emit (delta, message e)))"
proof -
  let ?cs = "map word_of_int (writeVariableLength_loop (js_shr (Num delta) 7) []) :: byte list"
  let ?b = "word_of_int (delta mod 128) :: byte"
  have cs: "\<forall>x \<in> set ?cs. 128 \<le> uint x"
    by (blast intro: written_continuation)
  have b: "uint ?b < 128" by (rule written_last_small)
  have "\<exists>st d1 d2. toUint8Array (message e) = [st, d1, d2]
          \<and> (uint st div 16 \<in> {8, 11, 14} \<or> (uint st div 16 = 9 \<and> d2 \<noteq> 0))"
  proof (cases e)
    case (Bend t l m c)
    then show ?thesis using ch by (simp add: toUint8Array_def status_kind)
  next
    case (NoteOn t n v c)
    with vel have "(word_of_int v :: byte) \<noteq> 0" by (intro velocity_byte) blast+
    then show ?thesis using ch NoteOn by (simp add: toUint8Array_def status_kind)
  next
    case (NoteOff t n v c)
    then show ?thesis using ch by (simp add: toUint8Array_def status_kind)
  qed
  then obtain st d1 d2 where m: "toUint8Array (message e) = [st, d1, d2]"
    and k: "uint st div 16 \<in> {8, 11, 14} \<or> (uint st div 16 = 9 \<and> d2 \<noteq> 0)"
    by blast
  have "event_chunk (?cs @ [?b, st, d1, d2])"
    using cs b k by (rule event_chunk.voice)
  moreover have "toUint8Array (emit (delta, message e)) = ?cs @ [?b, st, d1, d2]"
    by (simp add: emit_def toUint8Array_append toUint8Array_written m)
  ultimately show ?thesis by (simp add: chunked_single)
qed

lemma timedMessages_messages:
  "dm \<in> set (timedMessages lastTick es) \<Longrightarrow> \<exists>e \<in> set es. snd dm = message e"
  by (induction es arbitrary: lastTick) auto

lemma chunked_events:
  assumes "\<forall>e \<in> set es. channel e \<in> set channelPool
              \<and> (\<forall>t n v c. e = NoteOn t n v c \<longrightarrow> 1 \<le> v \<and> v \<le> 127)"
  shows "chunked (toUint8Array (concat (map emit (timedMessages 0 es))))"
  unfolding toUint8Array_concat map_map
proof (rule chunked_concat_map, rule ballI)
  fix dm
  assume "dm \<in> set (timedMessages 0 es)"
  then obtain e where e: "e \<in> set es" "snd dm = message e"
    using timedMessages_messages by blast
  then have "chunked (toUint8Array (emit (fst dm, message e)))"
    using assms by (intro chunked_emit) blast+
  then show "chunked ((toUint8Array \<circ> emit) dm)"
    using e(2) by (cases dm) simp
qed

lemma chunked_trackBytes:
  assumes "\<forall>e \<in> set es. channel e \<in> set channelPool
              \<and> (\<forall>t n v c. e = NoteOn t n v c \<longrightarrow> 1 \<le> v \<and> v \<le> 127)"
  shows "chunked (toUint8Array (trackBytes es m))"
proof -
  have "toUint8Array (trackBytes es m)
      = toUint8Array (tempoBytes m) @ toUint8Array (concat (map bendRangeBytes channelPool))
        @ toUint8Array (concat (map emit (timedMessages 0 es)))
        @ toUint8Array (writeVariableLength 0 @ [0xFF, 0x2F, 0x00])"
    unfolding trackBytes_def by (simp only: toUint8Array_append append_assoc)
  then show ?thesis
    using chunked_append [OF chunked_tempo chunked_append [OF chunked_bendRanges
      chunked_append [OF chunked_events [OF assms] chunked_end_of_track]]]
    by simp
qed

subsection \<open>The sort of the encoder\<close>

lemma compareEvents_le: "compareEvents x y \<le> 0 \<Longrightarrow> tick x \<le> tick y"
  by (simp add: compareEvents_def split: if_splits)

lemma compareEvents_gt: "\<not> compareEvents x y \<le> 0 \<Longrightarrow> tick y \<le> tick x"
  by (simp add: compareEvents_def split: if_splits)

lemma set_insert_sorted: "set (insert_sorted cmp x ys) = insert x (set ys)"
  by (induction ys) auto

lemma set_array_sort: "set (array_sort cmp xs) = set xs"
  by (induction xs) (simp_all add: set_insert_sorted)

lemma insert_sorted_by_tick:
  "sorted_wrt (\<lambda>a b. tick a \<le> tick b) ys \<Longrightarrow>
     sorted_wrt (\<lambda>a b. tick a \<le> tick b) (insert_sorted compareEvents x ys)"
proof (induction ys)
  case Nil
  show ?case by simp
next
  case (Cons y ys)
  show ?case
  proof (cases "compareEvents x y \<le> 0")
    case True
    then have "tick x \<le> tick y" by (rule compareEvents_le)
    moreover have "\<forall>z \<in> set ys. tick y \<le> tick z" using Cons.prems by simp
    ultimately have "\<forall>z \<in> set (y # ys). tick x \<le> tick z" by auto
    then show ?thesis using True Cons.prems by simp
  next
    case False
    then have "tick y \<le> tick x" by (rule compareEvents_gt)
    then have "\<forall>z \<in> set (insert_sorted compareEvents x ys). tick y \<le> tick z"
      using Cons.prems by (simp add: set_insert_sorted)
    then show ?thesis using False Cons by simp
  qed
qed

lemma array_sort_by_tick:
  "sorted_wrt (\<lambda>a b. tick a \<le> tick b) (array_sort compareEvents xs)"
  by (induction xs) (simp_all add: insert_sorted_by_tick)

subsection \<open>The events built from the notes\<close>

lemma addCircle_events:
  assumes "snd st < length channelPool"
    and "\<forall>e \<in> set (fst st). channel e \<in> set channelPool
              \<and> (\<forall>t n v c. e = NoteOn t n v c \<longrightarrow> 1 \<le> v \<and> v \<le> 127)"
  shows "snd (addCircle c st) < length channelPool
         \<and> (\<forall>e \<in> set (fst (addCircle c st)). channel e \<in> set channelPool
              \<and> (\<forall>t n v c. e = NoteOn t n v c \<longrightarrow> 1 \<le> v \<and> v \<le> 127))"
proof (cases st)
  case (Pair noteEvents channelIndex)
  have pool: "0 < length channelPool" by (simp add: channelPool_def)
  have idx: "channelPool ! channelIndex \<in> set channelPool"
    using assms(1) Pair by simp
  have next_idx: "(channelIndex + 1) mod length channelPool < length channelPool"
    using pool by simp
  show ?thesis
    using assms Pair idx next_idx by (auto simp: addCircle_def Let_def)
qed

lemma fold_addCircle_events:
  assumes "snd st < length channelPool"
    and "\<forall>e \<in> set (fst st). channel e \<in> set channelPool
              \<and> (\<forall>t n v c. e = NoteOn t n v c \<longrightarrow> 1 \<le> v \<and> v \<le> 127)"
  shows "\<forall>e \<in> set (fst (fold addCircle circles st)). channel e \<in> set channelPool
              \<and> (\<forall>t n v c. e = NoteOn t n v c \<longrightarrow> 1 \<le> v \<and> v \<le> 127)"
  using assms
proof (induction circles arbitrary: st)
  case Nil
  then show ?case by simp
next
  case (Cons c circles)
  have "snd (addCircle c st) < length channelPool
         \<and> (\<forall>e \<in> set (fst (addCircle c st)). channel e \<in> set channelPool
              \<and> (\<forall>t n v c. e = NoteOn t n v c \<longrightarrow> 1 \<le> v \<and> v \<le> 127))"
    using Cons.prems by (rule addCircle_events)
  then have "\<forall>e \<in> set (fst (fold addCircle circles (addCircle c st))). channel e \<in> set channelPool
              \<and> (\<forall>t n v c. e = NoteOn t n v c \<longrightarrow> 1 \<le> v \<and> v \<le> 127)"
    by (intro Cons.IH) blast+
  then show ?case by simp
qed

lemma sorted_events:
  "\<forall>e \<in> set (array_sort compareEvents (buildNoteEvents circles)). channel e \<in> set channelPool
      \<and> (\<forall>t n v c. e = NoteOn t n v c \<longrightarrow> 1 \<le> v \<and> v \<le> 127)"
  unfolding set_array_sort buildNoteEvents_def
  by (rule fold_addCircle_events) (simp_all add: channelPool_def)

section \<open>The claims\<close>

subsection \<open>C1: a Note-On of velocity 0\<close>

text \<open>
  C1, at the track \<^verbatim>\<open>[0x00, 0x90, 60, 0, 0x00, 0xFF, 0x2F, 0x00]\<close> (a Note-On of velocity
  0 for note 60, then End of Track): \<^verbatim>\<open>_parseNoteOn\<close> reads the two data bytes and calls
  \<^verbatim>\<open>_parseNoteOff\<close>, which reads two more. The Note-Off recorded has note 0 and velocity
  255, the delta time and the status byte of the End of Track; the rest of that event is
  then read as a Note-On under running status.
\<close>

theorem velocity0_note_on_reads_next_event:
  "MidiParser (one_track_file [0x00, 0x90, 60, 0, 0x00, 0xFF, 0x2F, 0x00])
     = Some (Inr \<lparr>data = one_track_file [0x00, 0x90, 60, 0, 0x00, 0xFF, 0x2F, 0x00],
          dataOffset = 31,
          event = [\<lparr>e_tick = 0, e_type = 8, e_channel = 0, e_note = Some (Num 0),
                    e_velocity = Some (Num 255), e_controller = None, e_program = None,
                    e_value = None, e_duration = None\<rparr>,
                   \<lparr>e_tick = 47, e_type = 9, e_channel = 0, e_note = Some (Num 0),
                    e_velocity = Some NaN, e_controller = None, e_program = None,
                    e_value = None, e_duration = None\<rparr>],
          totalTracks = Num 1, tempo = [], format = Num 0, ppqn = Num 0,
          ticksPerBeat = Num 480, lastEventType = Num 0x90\<rparr>)
   \<and> dataOffset (parseNoteOn 0 0 ((at_first_event [0x00, 0x90, 60, 0, 0x00, 0xFF, 0x2F, 0x00])
         \<lparr>dataOffset := 24\<rparr>)) = 28"
  by code_simp

subsection \<open>C2: the payload of a meta event\<close>

text \<open>
  C2, at a Time Signature event that declares five payload bytes
  (\<^verbatim>\<open>FF 58 05 04 02 18 08 81\<close>), followed by a Note-On of delta time 0 and End of Track:
  \<^verbatim>\<open>_parseTimeSignature\<close> reads four bytes whatever the length says, so
  \<^verbatim>\<open>_parseMetaEvent\<close>, entered at offset 24 (the type byte), leaves the cursor at 30 and
  not at 31, the first byte after the payload. The last payload byte \<^verbatim>\<open>81\<close> is then read
  as the first byte of the next delta time, and the Note-On is recorded at tick 128
  instead of 0.
\<close>

theorem time_signature_ignores_length:
  "dataOffset (parseMetaEvent 0
      ((at_first_event [0x00, 0xFF, 0x58, 0x05, 4, 2, 24, 8, 0x81, 0x00, 0x90, 60, 100,
                        0x00, 0xFF, 0x2F, 0x00])\<lparr>dataOffset := 24\<rparr>)) = 30
   \<and> MidiParser (one_track_file [0x00, 0xFF, 0x58, 0x05, 4, 2, 24, 8, 0x81, 0x00, 0x90, 60, 100,
                                 0x00, 0xFF, 0x2F, 0x00])
     = Some (Inr \<lparr>data = one_track_file [0x00, 0xFF, 0x58, 0x05, 4, 2, 24, 8, 0x81, 0x00, 0x90,
                                          60, 100, 0x00, 0xFF, 0x2F, 0x00],
          dataOffset = 39,
          event = [\<lparr>e_tick = 128, e_type = 9, e_channel = 0, e_note = Some (Num 60),
                    e_velocity = Some (Num 100), e_controller = None, e_program = None,
                    e_value = None, e_duration = None\<rparr>],
          totalTracks = Num 1, tempo = [], format = Num 0,
          ppqn = Num 0, ticksPerBeat = Num 480, lastEventType = Num 0xFF\<rparr>)"
  by code_simp

subsection \<open>C3: pairing a Note-Off with the open Note-On\<close>

lemma find_open_Some:
  "find_open evs d k = Some i \<longleftrightarrow>
     i < k \<and> is_open_note_on d (evs ! i) \<and> (\<forall>j. i < j \<and> j < k \<longrightarrow> \<not> is_open_note_on d (evs ! j))"
proof (induction k)
  case 0
  show ?case by simp
next
  case (Suc k)
  show ?case
  proof (cases "is_open_note_on d (evs ! k)")
    case True
    have "i = k \<longleftrightarrow>
        i < Suc k \<and> is_open_note_on d (evs ! i) \<and> (\<forall>j. i < j \<and> j < Suc k \<longrightarrow> \<not> is_open_note_on d (evs ! j))"
      using True by (auto simp: less_Suc_eq)
    then show ?thesis using True by auto
  next
    case False
    have "(i < k \<and> is_open_note_on d (evs ! i) \<and> (\<forall>j. i < j \<and> j < k \<longrightarrow> \<not> is_open_note_on d (evs ! j)))
        \<longleftrightarrow> (i < Suc k \<and> is_open_note_on d (evs ! i) \<and> (\<forall>j. i < j \<and> j < Suc k \<longrightarrow> \<not> is_open_note_on d (evs ! j)))"
      using False by (auto simp: less_Suc_eq)
    then show ?thesis using False Suc.IH by simp
  qed
qed

lemma find_open_None:
  "find_open evs d k = None \<longleftrightarrow> (\<forall>j < k. \<not> is_open_note_on d (evs ! j))"
  by (induction k) (auto simp: less_Suc_eq)

lemma pushEvent_list_keeps:
  assumes "j < length evs" and "e_type (evs ! j) = 9" and "e_duration (evs ! j) = None"
    and "\<not> (ty = 8 \<and> e_channel (evs ! j) = d_channel d \<and> js_eq_opt (e_note (evs ! j)) (d_note d))"
  shows "j < length (pushEvent_list T ty d evs) \<and> pushEvent_list T ty d evs ! j = evs ! j"
proof (cases "ty = 8")
  case False
  then show ?thesis using assms(1) by (simp add: pushEvent_list_def nth_append)
next
  case True
  show ?thesis
  proof (cases "find_open evs d (length evs)")
    case None
    then show ?thesis using True assms(1) by (simp add: pushEvent_list_def nth_append)
  next
    case (Some i)
    then have "is_open_note_on d (evs ! i)" by (simp add: find_open_Some)
    moreover have "\<not> is_open_note_on d (evs ! j)"
      using assms True by (simp add: is_open_note_on_def)
    ultimately have "i \<noteq> j" by auto
    then show ?thesis using True Some assms(1) by (simp add: pushEvent_list_def)
  qed
qed

lemma pushEvents_keeps:
  assumes "j < length (event p)" and "e_type (event p ! j) = 9" and "e_duration (event p ! j) = None"
    and "\<forall>(T, ty, d) \<in> set calls.
           \<not> (ty = 8 \<and> e_channel (event p ! j) = d_channel d \<and> js_eq_opt (e_note (event p ! j)) (d_note d))"
  shows "j < length (event (pushEvents calls p)) \<and> event (pushEvents calls p) ! j = event p ! j"
  using assms
proof (induction calls arbitrary: p)
  case Nil
  then show ?case by (simp add: pushEvents_def)
next
  case (Cons c calls)
  obtain T ty d where c: "c = (T, ty, d)" by (cases c)
  let ?p = "pushEvent T ty d p"
  have step: "j < length (event ?p) \<and> event ?p ! j = event p ! j"
    using Cons.prems c by (simp add: pushEvent_def pushEvent_list_keeps)
  have "j < length (event (pushEvents calls ?p)) \<and> event (pushEvents calls ?p) ! j = event ?p ! j"
    using step Cons.prems by (intro Cons.IH) auto
  then show ?case using step by (simp add: pushEvents_def c)
qed

text \<open>
  \<^verbatim>\<open>_pushEvent\<close> itself pairs as intended. Let a Note-Off with data \<open>d\<close> be pushed at tick
  \<open>T\<close>. If \<open>i\<close> is the last index of an open Note-On of the same channel and note, the event
  at \<open>i\<close> receives the duration \<open>T - tick\<close> and the list is otherwise unchanged (no record
  is added). If there is no such index, the list is the old one followed by the Note-Off.
  And a Note-On without duration keeps its place and stays as it is through any sequence
  of calls that holds no Note-Off of its channel and note.
\<close>

lemma pushEvent_pairs_note_off:
  "(i < length (event p) \<and> is_open_note_on d (event p ! i)
      \<and> (\<forall>k. i < k \<and> k < length (event p) \<longrightarrow> \<not> is_open_note_on d (event p ! k))
     \<longrightarrow> event (pushEvent T 8 d p)
           = (event p)[i := (event p ! i)\<lparr>e_duration := Some (T - e_tick (event p ! i))\<rparr>])
   \<and> ((\<forall>k < length (event p). \<not> is_open_note_on d (event p ! k))
     \<longrightarrow> event (pushEvent T 8 d p) = event p @ [new_event T 8 d])
   \<and> (j < length (event p) \<and> e_type (event p ! j) = 9 \<and> e_duration (event p ! j) = None
      \<and> (\<forall>(T', ty, d') \<in> set calls.
            \<not> (ty = 8 \<and> e_channel (event p ! j) = d_channel d'
                \<and> js_eq_opt (e_note (event p ! j)) (d_note d')))
     \<longrightarrow> j < length (event (pushEvents calls p)) \<and> event (pushEvents calls p) ! j = event p ! j)"
proof (intro conjI impI)
  assume "i < length (event p) \<and> is_open_note_on d (event p ! i)
      \<and> (\<forall>k. i < k \<and> k < length (event p) \<longrightarrow> \<not> is_open_note_on d (event p ! k))"
  then have "find_open (event p) d (length (event p)) = Some i"
    by (simp add: find_open_Some)
  then show "event (pushEvent T 8 d p)
           = (event p)[i := (event p ! i)\<lparr>e_duration := Some (T - e_tick (event p ! i))\<rparr>]"
    by (simp add: pushEvent_def pushEvent_list_def)
next
  assume "\<forall>k < length (event p). \<not> is_open_note_on d (event p ! k)"
  then have "find_open (event p) d (length (event p)) = None"
    by (simp add: find_open_None)
  then show "event (pushEvent T 8 d p) = event p @ [new_event T 8 d]"
    by (simp add: pushEvent_def pushEvent_list_def)
next
  assume a: "j < length (event p) \<and> e_type (event p ! j) = 9 \<and> e_duration (event p ! j) = None
      \<and> (\<forall>(T', ty, d') \<in> set calls.
            \<not> (ty = 8 \<and> e_channel (event p ! j) = d_channel d'
                \<and> js_eq_opt (e_note (event p ! j)) (d_note d')))"
  then have "j < length (event (pushEvents calls p)) \<and> event (pushEvents calls p) ! j = event p ! j"
    by (intro pushEvents_keeps) blast+
  then show "j < length (event (pushEvents calls p))"
    and "event (pushEvents calls p) ! j = event p ! j"
    by simp_all
qed


lemma pushEvent_pairs_note_off_example:
  "event (pushEvent 100 8 ((no_data 0)\<lparr>d_note := Some (Num 60), d_velocity := Some (Num 0)\<rparr>)
      ((init_parser [])\<lparr>event :=
         [new_event 0 9 ((no_data 0)\<lparr>d_note := Some (Num 60), d_velocity := Some (Num 100)\<rparr>),
          new_event 10 9 ((no_data 0)\<lparr>d_note := Some (Num 61), d_velocity := Some (Num 100)\<rparr>)]\<rparr>))
     = [(new_event 0 9 ((no_data 0)\<lparr>d_note := Some (Num 60), d_velocity := Some (Num 100)\<rparr>))
          \<lparr>e_duration := Some 100\<rparr>,
        new_event 10 9 ((no_data 0)\<lparr>d_note := Some (Num 61), d_velocity := Some (Num 100)\<rparr>)]
   \<and> event (pushEvent 100 8 ((no_data 0)\<lparr>d_note := Some (Num 62), d_velocity := Some (Num 0)\<rparr>)
      ((init_parser [])\<lparr>event :=
         [new_event 0 9 ((no_data 0)\<lparr>d_note := Some (Num 60), d_velocity := Some (Num 100)\<rparr>),
          new_event 10 9 ((no_data 0)\<lparr>d_note := Some (Num 61), d_velocity := Some (Num 100)\<rparr>)]\<rparr>))
     = [new_event 0 9 ((no_data 0)\<lparr>d_note := Some (Num 60), d_velocity := Some (Num 100)\<rparr>),
        new_event 10 9 ((no_data 0)\<lparr>d_note := Some (Num 61), d_velocity := Some (Num 100)\<rparr>),
        new_event 100 8 ((no_data 0)\<lparr>d_note := Some (Num 62), d_velocity := Some (Num 0)\<rparr>)]
   \<and> event (pushEvents
        [(100, 8, (no_data 0)\<lparr>d_note := Some (Num 60), d_velocity := Some (Num 0)\<rparr>),
         (120, 9, (no_data 0)\<lparr>d_note := Some (Num 60), d_velocity := Some (Num 90)\<rparr>)]
      ((init_parser [])\<lparr>event :=
         [new_event 0 9 ((no_data 0)\<lparr>d_note := Some (Num 60), d_velocity := Some (Num 100)\<rparr>),
          new_event 10 9 ((no_data 0)\<lparr>d_note := Some (Num 61), d_velocity := Some (Num 100)\<rparr>)]\<rparr>)) ! 1
     = new_event 10 9 ((no_data 0)\<lparr>d_note := Some (Num 61), d_velocity := Some (Num 100)\<rparr>)"
proof -
  let ?on60 = "new_event 0 9 ((no_data 0)\<lparr>d_note := Some (Num 60), d_velocity := Some (Num 100)\<rparr>)"
  let ?on61 = "new_event 10 9 ((no_data 0)\<lparr>d_note := Some (Num 61), d_velocity := Some (Num 100)\<rparr>)"
  let ?off60 = "(no_data 0)\<lparr>d_note := Some (Num 60), d_velocity := Some (Num 0)\<rparr>"
  let ?off62 = "(no_data 0)\<lparr>d_note := Some (Num 62), d_velocity := Some (Num 0)\<rparr>"
  let ?calls = "[(100, 8, ?off60),
                 (120, 9, (no_data 0)\<lparr>d_note := Some (Num 60), d_velocity := Some (Num 90)\<rparr>)]"
  let ?p = "(init_parser [])\<lparr>event := [?on60, ?on61]\<rparr>"
  have ev: "event ?p = [?on60, ?on61]" by simp
  have open60: "is_open_note_on ?off60 ?on60" "\<not> is_open_note_on ?off60 ?on61"
    by (simp_all add: is_open_note_on_def new_event_def no_data_def)
  have open62: "\<not> is_open_note_on ?off62 ?on60" "\<not> is_open_note_on ?off62 ?on61"
    by (simp_all add: is_open_note_on_def new_event_def no_data_def)
  have a: "0 < length (event ?p) \<and> is_open_note_on ?off60 (event ?p ! 0)
      \<and> (\<forall>k. 0 < k \<and> k < length (event ?p) \<longrightarrow> \<not> is_open_note_on ?off60 (event ?p ! k))"
    using open60 by (auto simp: less_Suc_eq)
  have b: "\<forall>k < length (event ?p). \<not> is_open_note_on ?off62 (event ?p ! k)"
    using open62 by (auto simp: less_Suc_eq)
  have c: "1 < length (event ?p) \<and> e_type (event ?p ! 1) = 9 \<and> e_duration (event ?p ! 1) = None
      \<and> (\<forall>(T', ty, d') \<in> set ?calls.
            \<not> (ty = 8 \<and> e_channel (event ?p ! 1) = d_channel d'
                \<and> js_eq_opt (e_note (event ?p ! 1)) (d_note d')))"
    by (simp add: new_event_def no_data_def)
  have "event (pushEvent 100 8 ?off60 ?p)
          = (event ?p)[0 := (event ?p ! 0)\<lparr>e_duration := Some (100 - e_tick (event ?p ! 0))\<rparr>]"
    using pushEvent_pairs_note_off [of 0 ?p ?off60 100 1 ?calls] a by blast
  moreover have "event (pushEvent 100 8 ?off62 ?p) = event ?p @ [new_event 100 8 ?off62]"
    using pushEvent_pairs_note_off [of 0 ?p ?off62 100 1 ?calls] b by blast
  moreover have "event (pushEvents ?calls ?p) ! 1 = event ?p ! 1"
    using pushEvent_pairs_note_off [of 0 ?p ?off60 100 1 ?calls] c by blast
  ultimately show ?thesis
    by (simp add: new_event_def)
qed

text \<open>
  A real Note-Off (status \<^verbatim>\<open>0x8n\<close>) reaches \<^verbatim>\<open>_pushEvent\<close> with its own two data bytes:
  one turn of the track loop on a delta time, the status byte and the bytes \<open>n\<close>, \<open>v\<close>
  pushes a Note-Off for note \<open>n\<close> at the tick reached.
\<close>

lemma real_note_off_turn:
  assumes dat: "data p = pre @ cs @ b # st # n # v # rest"
    and off: "dataOffset p = int (length pre)"
    and cs: "\<forall>x \<in> set cs. 128 \<le> uint x" and b: "uint b < 128"
    and kind: "uint st div 16 = 8"
  shows "\<exists>p'. parseTrackEvent T p = Inr (T + foldl vlq_step 0 (cs @ [b]), p')
            \<and> event p' = pushEvent_list (T + foldl vlq_step 0 (cs @ [b])) 8
                  ((no_data (js_and (Num (uint st)) 0x0F))
                     \<lparr>d_note := Some (Num (uint n)), d_velocity := Some (Num (uint v))\<rparr>)
                  (event p)"
proof -
  define delta where "delta = foldl vlq_step 0 (cs @ [b])"
  let ?o = "int (length pre) + int (length cs) + 2"
  let ?p3 = "p\<lparr>dataOffset := ?o\<rparr>"
  let ?d = "(no_data (js_and (Num (uint st)) 0x0F))
              \<lparr>d_note := Some (Num (uint n)), d_velocity := Some (Num (uint v))\<rparr>"
  have big: "128 \<le> uint st"
    using kind by simp
  have turn: "parseTrackEvent T p
      = (case dispatchEvent (T + delta) (Num (uint st)) ?p3 of
           Inl e \<Rightarrow> Inl e
         | Inr p4 \<Rightarrow> Inr (T + delta, p4\<lparr>lastEventType := Num (uint st)\<rparr>))"
    unfolding delta_def using dat off cs b big by (rule turn_with_status)
  have "data p = pre @ (cs @ [b, st]) @ n # (v # rest)"
    using dat by simp
  then have "byteAt (data p) (int (length pre) + int (length (cs @ [b, st]))) = Num (uint n)"
    by (rule byteAt_after)
  then have n_at: "byteAt (data p) ?o = Num (uint n)"
    by (simp add: ac_simps)
  have "data p = pre @ (cs @ [b, st, n]) @ v # rest"
    using dat by simp
  then have "byteAt (data p) (int (length pre) + int (length (cs @ [b, st, n]))) = Num (uint v)"
    by (rule byteAt_after)
  then have v_at: "byteAt (data p) (?o + 1) = Num (uint v)"
    by (simp add: ac_simps)
  have rd1: "readNumber 1 ?p3 = (Num (uint n), p\<lparr>dataOffset := ?o + 1\<rparr>)"
    using n_at by (simp add: readNumber_one)
  have rd2: "readNumber 1 (p\<lparr>dataOffset := ?o + 1\<rparr>) = (Num (uint v), p\<lparr>dataOffset := ?o + 1 + 1\<rparr>)"
    using v_at by (simp add: readNumber_one)
  have off_ev: "parseNoteOff (T + delta) (js_and (Num (uint st)) 0x0F) ?p3
      = pushEvent (T + delta) 8 ?d (p\<lparr>dataOffset := ?o + 1 + 1\<rparr>)"
    unfolding parseNoteOff_def rd1 prod.case rd2 prod.case by (rule refl)
  have disp: "dispatchEvent (T + delta) (Num (uint st)) ?p3
      = Inr (pushEvent (T + delta) 8 ?d (p\<lparr>dataOffset := ?o + 1 + 1\<rparr>))"
    using kind by (simp add: dispatchEvent_def kind_of_status Let_def off_ev)
  have "parseTrackEvent T p
      = Inr (T + delta, (pushEvent (T + delta) 8 ?d (p\<lparr>dataOffset := ?o + 1 + 1\<rparr>))
                          \<lparr>lastEventType := Num (uint st)\<rparr>)"
    unfolding turn disp by simp
  moreover have "event ((pushEvent (T + delta) 8 ?d (p\<lparr>dataOffset := ?o + 1 + 1\<rparr>))
                          \<lparr>lastEventType := Num (uint st)\<rparr>)
      = pushEvent_list (T + delta) 8 ?d (event p)"
    by (simp add: pushEvent_def)
  ultimately show ?thesis unfolding delta_def by blast
qed

text \<open>
  C3 fails for a reclassified Note-Off. The track
  \<^verbatim>\<open>[0x00, 0x90, 60, 100, 100, 0x90, 60, 0, 0x00, 0xFF, 0x2F, 0x00]\<close> holds a Note-On for
  note 60 at tick 0, a Note-On of velocity 0 for note 60 at tick 100 and End of Track.
  The constructor returns with the first Note-On still open (its duration unset) and with
  a separate Note-Off record at tick 100 for note 0, velocity 255: \<^verbatim>\<open>_parseNoteOff\<close>, called
  from \<^verbatim>\<open>_parseNoteOn\<close>, reads the next two bytes of the track as note and velocity, so
  \<^verbatim>\<open>_pushEvent\<close> looks for an open Note-On of note 0. The same track with the real status
  \<^verbatim>\<open>0x80\<close> in place of the second \<^verbatim>\<open>0x90\<close> decodes to the single Note-On with duration
  100 and no Note-Off record.
\<close>

theorem reclassified_note_off_is_not_paired:
  "MidiParser (one_track_file [0x00, 0x90, 60, 100, 100, 0x90, 60, 0, 0x00, 0xFF, 0x2F, 0x00])
     = Some (Inr \<lparr>data = one_track_file [0x00, 0x90, 60, 100, 100, 0x90, 60, 0, 0x00, 0xFF, 0x2F, 0x00],
          dataOffset = 35,
          event = [\<lparr>e_tick = 0, e_type = 9, e_channel = 0, e_note = Some (Num 60),
                    e_velocity = Some (Num 100), e_controller = None, e_program = None,
                    e_value = None, e_duration = None\<rparr>,
                   \<lparr>e_tick = 100, e_type = 8, e_channel = 0, e_note = Some (Num 0),
                    e_velocity = Some (Num 255), e_controller = None, e_program = None,
                    e_value = None, e_duration = None\<rparr>,
                   \<lparr>e_tick = 147, e_type = 9, e_channel = 0, e_note = Some (Num 0),
                    e_velocity = Some NaN, e_controller = None, e_program = None,
                    e_value = None, e_duration = None\<rparr>],
          totalTracks = Num 1, tempo = [], format = Num 0, ppqn = Num 0,
          ticksPerBeat = Num 480, lastEventType = Num 0x90\<rparr>)
   \<and> MidiParser (one_track_file [0x00, 0x90, 60, 100, 100, 0x80, 60, 0, 0x00, 0xFF, 0x2F, 0x00])
     = Some (Inr \<lparr>data = one_track_file [0x00, 0x90, 60, 100, 100, 0x80, 60, 0, 0x00, 0xFF, 0x2F, 0x00],
          dataOffset = 34,
          event = [\<lparr>e_tick = 0, e_type = 9, e_channel = 0, e_note = Some (Num 60),
                    e_velocity = Some (Num 100), e_controller = None, e_program = None,
                    e_value = None, e_duration = Some 100\<rparr>],
          totalTracks = Num 1, tempo = [], format = Num 0, ppqn = Num 0,
          ticksPerBeat = Num 480, lastEventType = Num 0xFF\<rparr>)"
  by code_simp

subsection \<open>C4: the variable-length codec\<close>

text \<open>
  C4: for every \<open>n\<close> from 0 to \<open>2^28 - 1\<close>, the reader, started on the bytes that the
  writer produced for \<open>n\<close> (anywhere in a buffer), returns \<open>n\<close> and stops right after them;
  when \<open>n\<close> needs \<open>k\<close> groups of seven bits (\<open>n < 128^k\<close>, and \<open>k = 1\<close> or
  \<open>128^(k-1) \<le> n\<close>) the writer produces \<open>k\<close> bytes; every byte but the last has the
  bit \<open>0x80\<close> set and the last has not; and 0 is written as the single byte 0.
\<close>

theorem vlq_roundtrip:
  assumes "0 \<le> n" and "n \<le> 2 ^ 28 - 1"
  shows "readVariableLengthNumber (pre @ toUint8Array (writeVariableLength n) @ post)
             (int (length pre))
           = (n, int (length pre) + int (length (writeVariableLength n)))
         \<and> (\<forall>k. n < 128 ^ k \<and> (k = 1 \<or> 128 ^ (k - 1) \<le> n) \<longrightarrow>
                length (writeVariableLength n) = k)
         \<and> (\<forall>i < length (writeVariableLength n) - 1.
                js_and (Num (uint (toUint8Array (writeVariableLength n) ! i))) 0x80 \<noteq> 0)
         \<and> js_and (Num (uint (last (toUint8Array (writeVariableLength n))))) 0x80 = 0
         \<and> writeVariableLength 0 = [0]"
proof (intro conjI allI impI)
  have n31: "n < 2147483648" using assms(2) by simp
  show "readVariableLengthNumber (pre @ toUint8Array (writeVariableLength n) @ post)
             (int (length pre))
           = (n, int (length pre) + int (length (writeVariableLength n)))"
    by (simp only: read_written written_value [OF assms(1) n31])
next
  fix k :: nat
  assume k: "n < 128 ^ k \<and> (k = 1 \<or> 128 ^ (k - 1) \<le> n)"
  have n31: "n < 2147483648" using assms(2) by simp
  have shr: "js_shr (Num n) 7 = n div 128" using assms(1) n31 by (rule js_shr_small)
  have len: "length (writeVariableLength n) = length (writeVariableLength_loop (n div 128) []) + 1"
    by (simp add: writeVariableLength_shape shr)
  have k0: "k \<noteq> 0" using k assms(1) by (cases k) auto
  show "length (writeVariableLength n) = k"
  proof (cases "n < 128")
    case True
    then have "n div 128 = 0" using assms(1) by simp
    moreover have "k = 1"
    proof (rule ccontr)
      assume "k \<noteq> 1"
      with k k0 have "128 ^ (k - 1) \<le> n" and "1 \<le> k - 1" by auto
      then have "(128::int) ^ 1 \<le> 128 ^ (k - 1)" by (intro power_increasing) simp_all
      with \<open>128 ^ (k - 1) \<le> n\<close> True show False by simp
    qed
    ultimately show ?thesis by (simp add: len loop_stop)
  next
    case False
    then have k1: "k \<noteq> 1" using k by auto
    with k k0 obtain j where j: "k = Suc (Suc j)" by (cases k; cases "k - 1") auto
    have lo: "128 ^ Suc j \<le> n" and hi: "n < 128 ^ Suc (Suc j)" using k j by auto
    have "128 ^ j \<le> n div 128"
      using lo by (simp add: zdiv_mono1 [of "128 * 128 ^ j" n 128, simplified])
    moreover have "n div 128 < 128 ^ Suc j"
      using hi by (simp add: div_less_iff_less_mult flip: zdiv_zmult2_eq)
    moreover have "n div 128 < 2147483648" using n31 assms(1) by simp
    ultimately have "length (writeVariableLength_loop (n div 128) []) = Suc j"
      by (rule loop_length)
    then show ?thesis by (simp add: len j)
  qed
next
  fix i
  assume i: "i < length (writeVariableLength n) - 1"
  let ?cs = "map word_of_int (writeVariableLength_loop (js_shr (Num n) 7) []) :: byte list"
  have "i < length ?cs"
    using i by (simp add: writeVariableLength_shape)
  moreover from this have "toUint8Array (writeVariableLength n) ! i = ?cs ! i"
    by (simp only: toUint8Array_written nth_append if_True)
  ultimately have "toUint8Array (writeVariableLength n) ! i = ?cs ! i" and "i < length ?cs"
    by simp_all
  then have "128 \<le> uint (toUint8Array (writeVariableLength n) ! i)"
    using written_continuation [of "?cs ! i" "js_shr (Num n) 7"] by (simp only: nth_mem)
  then show "js_and (Num (uint (toUint8Array (writeVariableLength n) ! i))) 0x80 \<noteq> 0"
    by (simp only: js_and_byte_80)
next
  have "last (toUint8Array (writeVariableLength n)) = (word_of_int (n mod 128) :: byte)"
    by (simp add: toUint8Array_written)
  then have "\<not> 128 \<le> uint (last (toUint8Array (writeVariableLength n)))"
    using written_last_small [of n] by simp
  then show "js_and (Num (uint (last (toUint8Array (writeVariableLength n))))) 0x80 = 0"
    using js_and_byte_80 [of "last (toUint8Array (writeVariableLength n))"] by blast
next
  show "writeVariableLength 0 = [0]"
    by (simp add: writeVariableLength_shape js_shr_small loop_stop)
qed

theorem vlq_roundtrip_witness:
  "readVariableLengthNumber ([0x00, 0x90] @ toUint8Array (writeVariableLength 200) @ [0x3C]) 2
     = (200, 4)
   \<and> length (writeVariableLength 200) = 2
   \<and> js_and (Num (uint (toUint8Array (writeVariableLength 200) ! 0))) 0x80 \<noteq> 0
   \<and> js_and (Num (uint (last (toUint8Array (writeVariableLength 200))))) 0x80 = 0"
proof -
  have h: "(0::int) \<le> 200" "(200::int) \<le> 2 ^ 28 - 1" by simp_all
  note t = vlq_roundtrip [OF h, of "[0x00, 0x90]" "[0x3C]"]
  have len: "length (writeVariableLength 200) = 2"
    using t by (elim conjE allE [of _ 2]) simp
  show ?thesis
    using t len by simp
qed

subsection \<open>C5: no cap in the variable-length reader\<close>

text \<open>
  C5 does not hold of the code: a file whose first delta time is a continuation sequence of
  six bytes is decoded without any error. The reader accumulates all six bytes, the number
  wraps to \<open>-1\<close>, and the Note-On that follows is recorded at tick \<open>-1\<close>.
\<close>

theorem pathological_vlq_is_decoded:
  "MidiParser (one_track_file [0xFF, 0xFF, 0xFF, 0xFF, 0xFF, 0x7F, 0x90, 60, 100])
     = Some (Inr \<lparr>data = one_track_file [0xFF, 0xFF, 0xFF, 0xFF, 0xFF, 0x7F, 0x90, 60, 100],
          dataOffset = 31,
          event = [\<lparr>e_tick = - 1, e_type = 9, e_channel = 0, e_note = Some (Num 60),
                    e_velocity = Some (Num 100), e_controller = None, e_program = None,
                    e_value = None, e_duration = None\<rparr>],
          totalTracks = Num 1, tempo = [], format = Num 0, ppqn = Num 0,
          ticksPerBeat = Num 480, lastEventType = Num 0x90\<rparr>)"
  by code_simp

text \<open>
  C5, amended: the reader has no cap and no error. On any run of continuation bytes
  \<open>cs\<close>, however long, closed by a byte \<open>b\<close> below \<open>0x80\<close>, it consumes all of them and
  returns the accumulation \<open>foldl vlq_step 0\<close>, each shift wrapped to a signed 32-bit
  number, so the result stays between \<open>-2^31\<close> and \<open>2^31 + 126\<close>.
\<close>

theorem vlq_reader_has_no_cap:
  assumes "\<forall>c \<in> set cs. 128 \<le> uint c" and "uint b < 128"
  shows "readVariableLengthNumber (pre @ cs @ b # post) (int (length pre))
           = (foldl vlq_step 0 (cs @ [b]), int (length pre) + int (length cs) + 1)
         \<and> - 2147483648 \<le> foldl vlq_step 0 (cs @ [b])
         \<and> foldl vlq_step 0 (cs @ [b]) \<le> 2147483648 + 126"
proof -
  have "readVariableLengthNumber (pre @ cs @ b # post) (int (length pre))
          = (foldl vlq_step 0 (cs @ [b]), int (length pre) + int (length cs) + 1)"
    unfolding readVariableLengthNumber_def using assms by (rule readVLQ_loop_shape)
  moreover have "foldl vlq_step 0 (cs @ [b]) = js_shl (Num (foldl vlq_step 0 cs)) 7 + uint b mod 128"
    by (simp add: vlq_step_mod)
  moreover have "- 2147483648 \<le> js_shl (Num (foldl vlq_step 0 cs)) 7"
    and "js_shl (Num (foldl vlq_step 0 cs)) 7 < 2147483648"
    by (simp_all only: js_shl_def wrap32_bounds)
  moreover have "0 \<le> uint b mod 128" and "uint b mod 128 < 128"
    by simp_all
  ultimately show ?thesis by linarith
qed

theorem vlq_reader_has_no_cap_witness:
  "readVariableLengthNumber [0xFF, 0xFF, 0xFF, 0xFF, 0xFF, 0x7F] 0 = (- 1, 6)"
proof -
  have h: "\<forall>c \<in> set [0xFF, 0xFF, 0xFF, 0xFF, 0xFF :: byte]. 128 \<le> uint c" "uint (0x7F :: byte) < 128"
    by simp_all
  have v: "foldl vlq_step 0 ([0xFF, 0xFF, 0xFF, 0xFF, 0xFF] @ [0x7F]) = - 1"
    by code_simp
  show ?thesis
    using vlq_reader_has_no_cap [OF h, of "[]" "[]"] unfolding v by simp
qed

subsection \<open>C6: running status\<close>

text \<open>
  C6: when the byte after the delta time is a data byte \<open>b\<close> (below \<open>0x80\<close>), the turn of
  the loop handles the event with the status of the previous event,
  \<^verbatim>\<open>_lastEventType\<close>, and with the cursor back on \<open>b\<close>, which is thus read as the first
  data byte; \<^verbatim>\<open>_lastEventType\<close> stays what it was.
\<close>

theorem running_status:
  assumes "readVLQ p = (delta, p1)"
    and "byteAt (data p1) (dataOffset p1) = Num b"
    and "b < 0x80"
  shows "parseTrackEvent T p
           = (case dispatchEvent (T + delta) (lastEventType p) p1 of
                Inl e \<Rightarrow> Inl e
              | Inr p4 \<Rightarrow> Inr (T + delta, p4\<lparr>lastEventType := lastEventType p\<rparr>))"
proof -
  have p1: "p1 = p\<lparr>dataOffset := dataOffset p1\<rparr>"
    using assms(1) by (rule readVLQ_fields)
  have last: "lastEventType p1 = lastEventType p"
    by (subst p1) simp
  have rd: "readNumber 1 p1 = (Num b, p1\<lparr>dataOffset := dataOffset p1 + 1\<rparr>)"
    by (simp add: readNumber_one assms(2))
  show ?thesis
    using assms(3) by (simp add: parseTrackEvent_def assms(1) rd last Let_def cong: sum.case_cong)
qed

text \<open>
  The stream \<^verbatim>\<open>[0, 0x90, 60, 100, 0, 61, 100]\<close>: the second turn of the loop starts at
  offset 26 with one Note-On recorded and \<^verbatim>\<open>_lastEventType = 0x90\<close>, and records a Note-On
  for note 61 on channel 0; the file decodes to the two Note-On events.
\<close>

theorem running_status_witness:
  "parseTrackEvent 0
     ((at_first_event [0x00, 0x90, 60, 100, 0x00, 61, 100])
        \<lparr>dataOffset := 26,
         event := [new_event 0 9 ((no_data 0)\<lparr>d_note := Some (Num 60), d_velocity := Some (Num 100)\<rparr>)],
         lastEventType := Num 0x90\<rparr>)
     = Inr (0, (at_first_event [0x00, 0x90, 60, 100, 0x00, 61, 100])
        \<lparr>dataOffset := 29,
         event := [new_event 0 9 ((no_data 0)\<lparr>d_note := Some (Num 60), d_velocity := Some (Num 100)\<rparr>),
                   new_event 0 9 ((no_data 0)\<lparr>d_note := Some (Num 61), d_velocity := Some (Num 100)\<rparr>)],
         lastEventType := Num 0x90\<rparr>)
   \<and> MidiParser (one_track_file [0x00, 0x90, 60, 100, 0x00, 61, 100])
     = Some (Inr ((at_first_event [0x00, 0x90, 60, 100, 0x00, 61, 100])
        \<lparr>dataOffset := 29,
         event := [new_event 0 9 ((no_data 0)\<lparr>d_note := Some (Num 60), d_velocity := Some (Num 100)\<rparr>),
                   new_event 0 9 ((no_data 0)\<lparr>d_note := Some (Num 61), d_velocity := Some (Num 100)\<rparr>)],
         lastEventType := Num 0x90\<rparr>))"
proof
  let ?ev = "[new_event 0 9 ((no_data 0)\<lparr>d_note := Some (Num 60), d_velocity := Some (Num 100)\<rparr>)]"
  let ?p = "(at_first_event [0x00, 0x90, 60, 100, 0x00, 61, 100])
        \<lparr>dataOffset := 26, event := ?ev, lastEventType := Num 0x90\<rparr>"
  have h1: "readVLQ ?p = (0, ?p\<lparr>dataOffset := 27\<rparr>)"
    by code_simp
  have h2: "byteAt (data (?p\<lparr>dataOffset := 27\<rparr>)) (dataOffset (?p\<lparr>dataOffset := 27\<rparr>)) = Num 61"
    by code_simp
  have h3: "(61::int) < 0x80" by simp
  have d: "dispatchEvent (0 + 0) (lastEventType ?p) (?p\<lparr>dataOffset := 27\<rparr>)
      = Inr ((at_first_event [0x00, 0x90, 60, 100, 0x00, 61, 100])
        \<lparr>dataOffset := 29,
         event := [new_event 0 9 ((no_data 0)\<lparr>d_note := Some (Num 60), d_velocity := Some (Num 100)\<rparr>),
                   new_event 0 9 ((no_data 0)\<lparr>d_note := Some (Num 61), d_velocity := Some (Num 100)\<rparr>)],
         lastEventType := Num 0x90\<rparr>)"
    by code_simp
  show "parseTrackEvent 0 ?p
     = Inr (0, (at_first_event [0x00, 0x90, 60, 100, 0x00, 61, 100])
        \<lparr>dataOffset := 29,
         event := [new_event 0 9 ((no_data 0)\<lparr>d_note := Some (Num 60), d_velocity := Some (Num 100)\<rparr>),
                   new_event 0 9 ((no_data 0)\<lparr>d_note := Some (Num 61), d_velocity := Some (Num 100)\<rparr>)],
         lastEventType := Num 0x90\<rparr>)"
    using running_status [OF h1 h2 h3, of 0] unfolding d by simp
next
  show "MidiParser (one_track_file [0x00, 0x90, 60, 100, 0x00, 61, 100])
     = Some (Inr ((at_first_event [0x00, 0x90, 60, 100, 0x00, 61, 100])
        \<lparr>dataOffset := 29,
         event := [new_event 0 9 ((no_data 0)\<lparr>d_note := Some (Num 60), d_velocity := Some (Num 100)\<rparr>),
                   new_event 0 9 ((no_data 0)\<lparr>d_note := Some (Num 61), d_velocity := Some (Num 100)\<rparr>)],
         lastEventType := Num 0x90\<rparr>))"
    by code_simp
qed

subsection \<open>C7: the check of the constructor\<close>

text \<open>
  C7: a buffer shorter than 18 bytes, or whose first four bytes are not \<^verbatim>\<open>MThd\<close>, makes
  the constructor throw \<^verbatim>\<open>'Wrong MIDI file format.'\<close>; the result is the error alone, with
  no parser object and so no events, tempo entries or header fields.
\<close>

theorem constructor_rejects_wrong_format:
  assumes "length d < 18 \<or> take 4 d \<noteq> [0x4D, 0x54, 0x68, 0x64]"
  shows "MidiParser d = Some (Inl WrongFormat)"
  using assms by (auto simp: MidiParser_def slice_first_four tag_MThd_bytes)

theorem constructor_rejects_wrong_format_witness:
  "MidiParser [0x4D, 0x54, 0x68, 0x64, 0, 0, 0, 6, 0, 0, 0, 1, 0x01, 0xE0, 0x4D, 0x54, 0x72]
     = Some (Inl WrongFormat)
   \<and> MidiParser [0x52, 0x49, 0x46, 0x46, 0, 0, 0, 6, 0, 0, 0, 1, 0x01, 0xE0,
                 0x4D, 0x54, 0x72, 0x6B, 0, 0, 0, 4, 0x00, 0xFF, 0x2F, 0x00]
     = Some (Inl WrongFormat)"
proof
  show "MidiParser [0x4D, 0x54, 0x68, 0x64, 0, 0, 0, 6, 0, 0, 0, 1, 0x01, 0xE0, 0x4D, 0x54, 0x72]
     = Some (Inl WrongFormat)"
    by (rule constructor_rejects_wrong_format) simp
  show "MidiParser [0x52, 0x49, 0x46, 0x46, 0, 0, 0, 6, 0, 0, 0, 1, 0x01, 0xE0,
                 0x4D, 0x54, 0x72, 0x6B, 0, 0, 0, 4, 0x00, 0xFF, 0x2F, 0x00]
     = Some (Inl WrongFormat)"
    by (rule constructor_rejects_wrong_format) simp
qed

subsection \<open>C8: the header of an exported file, decoded\<close>

lemma readNumber_two:
  assumes "data p = pre @ [x1, x0] @ post" and "dataOffset p = int (length pre)"
  shows "readNumber 2 p
     = (Num (js_shl (Num (uint x1)) 8 + uint x0), p\<lparr>dataOffset := int (length pre) + 2\<rparr>)"
proof -
  have up: "[0..<nat 2] = [0, 1]"
    by (simp add: upt_rec)
  have b: "byteAt (data p) (int (length pre)) = Num (uint x1)"
    "byteAt (data p) (int (length pre) + 1) = Num (uint x0)"
    using byteAt_after [of p pre "[]" x1 "x0 # post"]
      byteAt_after [of p pre "[x1]" x0 post] assms(1)
    by simp_all
  have z: "js_shl (Num 0) 8 = 0" by (simp add: js_shl_def wrap32_def)
  show ?thesis
    unfolding readNumber_def up assms(2) by (simp add: b z)
qed

lemma readString_four:
  assumes "data p = pre @ [x3, x2, x1, x0] @ post" and "dataOffset p = int (length pre)"
  shows "readString 4 p = ([x3, x2, x1, x0], p\<lparr>dataOffset := int (length pre) + 4\<rparr>)"
  by (simp add: readString_def slice_def assms Let_def min_def)

lemma exported_header:
  "toUint8Array (writeStringToBytes ''MThd'' @ write32 6 @ write16 0 @ write16 1
      @ write16 TICKS_PER_BEAT)
     = [0x4D, 0x54, 0x68, 0x64, 0, 0, 0, 6, 0, 0, 0, 1, 0x01, 0xE0]"
  by code_simp

lemma exported_track_tag: "toUint8Array (writeStringToBytes ''MTrk'') = [0x4D, 0x54, 0x72, 0x6B]"
  by code_simp

lemma parseHeader_exported:
  assumes "data p = [0x4D, 0x54, 0x68, 0x64, 0, 0, 0, 6, 0, 0, 0, 1, 0x01, 0xE0] @ rest"
    and "dataOffset p = 0"
  shows "parseHeader p
     = Inr (p\<lparr>dataOffset := 14, format := Num 0, totalTracks := Num 1, ticksPerBeat := Num 480\<rparr>)"
proof -
  let ?p4 = "p\<lparr>dataOffset := 4\<rparr>" and ?p8 = "p\<lparr>dataOffset := 8\<rparr>"
  let ?p10 = "p\<lparr>dataOffset := 10\<rparr>" and ?p12 = "p\<lparr>dataOffset := 12\<rparr>"
  have "data p = [] @ [0x4D, 0x54, 0x68, 0x64] @ ([0, 0, 0, 6, 0, 0, 0, 1, 0x01, 0xE0] @ rest)"
    and "dataOffset p = int (length ([]::byte list))"
    using assms by simp_all
  from readString_four [OF this] have tag: "readString 4 p = (tag_MThd, ?p4)"
    by (simp add: tag_MThd_def)
  have "data ?p4 = [0x4D, 0x54, 0x68, 0x64] @ [0, 0, 0, 6] @ ([0, 0, 0, 1, 0x01, 0xE0] @ rest)"
    and "dataOffset ?p4 = int (length [0x4D, 0x54, 0x68, 0x64 :: byte])"
    using assms by simp_all
  from readNumber_four [OF this] have len: "readNumber 4 ?p4 = (Num 6, ?p8)"
    by (simp add: js_shl_def wrap32_def)
  have "data ?p8 = [0x4D, 0x54, 0x68, 0x64, 0, 0, 0, 6] @ [0, 0] @ ([0, 1, 0x01, 0xE0] @ rest)"
    and "dataOffset ?p8 = int (length [0x4D, 0x54, 0x68, 0x64, 0, 0, 0, 6 :: byte])"
    using assms by simp_all
  from readNumber_two [OF this] have fmt: "readNumber 2 ?p8 = (Num 0, ?p10)"
    by (simp add: js_shl_def wrap32_def)
  have "data ?p10 = [0x4D, 0x54, 0x68, 0x64, 0, 0, 0, 6, 0, 0] @ [0, 1] @ ([0x01, 0xE0] @ rest)"
    and "dataOffset ?p10 = int (length [0x4D, 0x54, 0x68, 0x64, 0, 0, 0, 6, 0, 0 :: byte])"
    using assms by simp_all
  from readNumber_two [OF this] have trk: "readNumber 2 ?p10 = (Num 1, ?p12)"
    by (simp add: js_shl_def wrap32_def)
  have "data ?p12 = [0x4D, 0x54, 0x68, 0x64, 0, 0, 0, 6, 0, 0, 0, 1] @ [0x01, 0xE0] @ rest"
    and "dataOffset ?p12 = int (length [0x4D, 0x54, 0x68, 0x64, 0, 0, 0, 6, 0, 0, 0, 1 :: byte])"
    using assms by simp_all
  from readNumber_two [OF this] have div: "readNumber 2 ?p12 = (Num 480, p\<lparr>dataOffset := 14\<rparr>)"
    by (simp add: js_shl_def wrap32_def)
  have smpte: "js_and (Num 480) 0x8000 = 0"
    by (simp add: js_and_def wrap32_def)
  show ?thesis
    by (simp add: parseHeader_def tag len fmt trk div smpte)
qed


lemma exported_bytes:
  assumes "exportToMidiFile circles m = Some bytes"
  shows "bytes = [0x4D, 0x54, 0x68, 0x64, 0, 0, 0, 6, 0, 0, 0, 1, 0x01, 0xE0]
      @ [0x4D, 0x54, 0x72, 0x6B]
      @ toUint8Array (write32 (int (length (trackBytes (array_sort compareEvents
            (buildNoteEvents circles)) m))))
      @ toUint8Array (trackBytes (array_sort compareEvents (buildNoteEvents circles)) m)"
proof -
  let ?tb = "trackBytes (array_sort compareEvents (buildNoteEvents circles)) m"
  have "bytes = toUint8Array ((writeStringToBytes ''MThd'' @ write32 6 @ write16 0 @ write16 1
            @ write16 TICKS_PER_BEAT)
          @ (writeStringToBytes ''MTrk'' @ write32 (int (length ?tb))) @ ?tb)"
    using assms by (simp add: exportToMidiFile_def Let_def split: if_splits)
  also have "\<dots> = toUint8Array (writeStringToBytes ''MThd'' @ write32 6 @ write16 0 @ write16 1
            @ write16 TICKS_PER_BEAT)
          @ toUint8Array (writeStringToBytes ''MTrk'') @ toUint8Array (write32 (int (length ?tb)))
          @ toUint8Array ?tb"
    by (simp only: toUint8Array_append append_assoc)
  finally show ?thesis
    by (simp only: exported_header exported_track_tag)
qed

text \<open>
  C8: whenever the encoder produces a file, the decoder accepts it (the constructor
  returns) and the parser object holds format 0, one track and 480 ticks per quarter
  note, the constants that the encoder wrote.
\<close>

theorem decode_recovers_exported_header:
  assumes "exportToMidiFile circles m = Some bytes"
  shows "\<exists>p. MidiParser bytes = Some (Inr p)
           \<and> format p = Num 0 \<and> totalTracks p = Num 1 \<and> ticksPerBeat p = Num TICKS_PER_BEAT"
proof -
  define tb where "tb = trackBytes (array_sort compareEvents (buildNoteEvents circles)) m"
  define hd :: "byte list" where "hd = [0x4D, 0x54, 0x68, 0x64, 0, 0, 0, 6, 0, 0, 0, 1, 0x01, 0xE0]"
  define tag :: "byte list" where "tag = [0x4D, 0x54, 0x72, 0x6B]"
  have bytes: "bytes = hd @ tag @ toUint8Array (write32 (int (length tb))) @ toUint8Array tb"
    unfolding hd_def tag_def tb_def using assms by (rule exported_bytes)
  have lens: "length hd = 14" "length tag = 4" "length (toUint8Array (write32 (int (length tb)))) = 4"
    by (simp_all add: hd_def tag_def write32_def toUint8Array_def)
  obtain chunks where chunks: "toUint8Array tb = concat chunks" "\<forall>c \<in> set chunks. event_chunk c"
    using chunked_trackBytes [OF sorted_events, of circles m] unfolding chunked_def tb_def by blast
  \<comment> \<open>the check of the constructor\<close>
  have long: "\<not> int (length bytes) < 18"
    by (simp add: bytes lens)
  have first: "slice bytes 0 4 = tag_MThd"
    by (simp add: slice_first_four tag_MThd_bytes bytes hd_def)
  \<comment> \<open>the header chunk\<close>
  define p14 where "p14 = (init_parser bytes)
      \<lparr>dataOffset := 14, format := Num 0, totalTracks := Num 1, ticksPerBeat := Num 480\<rparr>"
  have "data (init_parser bytes) = [0x4D, 0x54, 0x68, 0x64, 0, 0, 0, 6, 0, 0, 0, 1, 0x01, 0xE0]
          @ (tag @ toUint8Array (write32 (int (length tb))) @ toUint8Array tb)"
    and "dataOffset (init_parser bytes) = 0"
    by (simp_all add: init_parser_def bytes hd_def)
  then have header: "parseHeader (init_parser bytes) = Inr p14"
    unfolding p14_def by (rule parseHeader_exported)
  have p14: "data p14 = bytes" "dataOffset p14 = 14"
    "header_of p14 = (bytes, Num 0, Num 1, Num 480)"
    by (simp_all add: p14_def init_parser_def header_of_def)
  \<comment> \<open>the track chunk: tag, length, events\<close>
  have "data p14 = hd @ [0x4D, 0x54, 0x72, 0x6B]
            @ (toUint8Array (write32 (int (length tb))) @ toUint8Array tb)"
    and "dataOffset p14 = int (length hd)"
    by (simp_all add: p14 bytes lens tag_def)
  then have tag_read: "readString 4 p14 = (tag_MTrk, p14\<lparr>dataOffset := 18\<rparr>)"
    using readString_four [of p14 hd] by (simp add: tag_MTrk_bytes lens)
  have "data (p14\<lparr>dataOffset := 18\<rparr>)
          = (hd @ tag) @ toUint8Array (write32 (int (length tb))) @ toUint8Array tb"
    and "dataOffset (p14\<lparr>dataOffset := 18\<rparr>) = int (length (hd @ tag))"
    and "0 \<le> int (length tb)"
    by (simp_all add: p14 bytes lens)
  then obtain v where v: "readNumber 4 (p14\<lparr>dataOffset := 18\<rparr>)
      = (Num v, p14\<lparr>dataOffset := 18, dataOffset := int (length (hd @ tag)) + 4\<rparr>)"
    "v \<le> int (length tb)"
    using read_write32 by blast
  define p22 where "p22 = p14\<lparr>dataOffset := 22\<rparr>"
  have len_read: "readNumber 4 (p14\<lparr>dataOffset := 18\<rparr>) = (Num v, p22)"
    using v(1) by (simp add: p22_def lens)
  have pre22: "int (length (hd @ tag @ toUint8Array (write32 (int (length tb))))) = 22"
    by (simp add: lens)
  have "length (toUint8Array tb) = length tb"
    by (rule length_toUint8Array)
  then have ltb: "int (length tb) = int (length (concat chunks))"
    by (simp only: chunks(1))
  have "\<forall>c \<in> set chunks. event_chunk c"
    by (rule chunks(2))
  moreover have "data p22 = (hd @ tag @ toUint8Array (write32 (int (length tb)))) @ concat chunks @ []"
    by (simp add: p22_def p14(1) bytes chunks(1))
  moreover have "dataOffset p22 = int (length (hd @ tag @ toUint8Array (write32 (int (length tb)))))"
    unfolding pre22 by (simp add: p22_def)
  moreover have "22 + v \<le> int (length (hd @ tag @ toUint8Array (write32 (int (length tb)))))
            + int (length (concat chunks))"
    unfolding pre22 using v(2) ltb by linarith
  ultimately obtain p' where p': "parseTrackEvents (Num (22 + v)) 0 p22 = Some (Inr p')"
    "header_of p' = header_of p22"
    using parse_chunks by blast
  have track: "parseTrack p14 = Some (Inr p')"
    by (simp add: parseTrack_def tag_read len_read p22_def p'(1) [unfolded p22_def])
  have "parseTracks p14 = Some (Inr p')"
    using p14(3) by (simp add: parseTracks_def header_of_def track)
  then have "MidiParser bytes = Some (Inr p')"
    using long first by (simp add: MidiParser_def header)
  moreover have "header_of p' = (bytes, Num 0, Num 1, Num 480)"
    by (simp add: p'(2) p22_def p14(3))
  ultimately show ?thesis
    by (auto simp: header_of_def TICKS_PER_BEAT_def)
qed

theorem decode_recovers_exported_header_witness:
  "(case exportToMidiFile [a4_note] (Num 500000) of
      None \<Rightarrow> None
    | Some bytes \<Rightarrow>
        (case MidiParser bytes of
           Some (Inr p) \<Rightarrow> Some (format p, totalTracks p, ticksPerBeat p)
         | _ \<Rightarrow> None))
     = Some (Num 0, Num 1, Num 480)"
proof -
  obtain bytes where b: "exportToMidiFile [a4_note] (Num 500000) = Some bytes"
    by (simp add: exportToMidiFile_def buildNoteEvents_def addCircle_def a4_note_def Let_def)
  from decode_recovers_exported_header [OF b] obtain p where
    "MidiParser bytes = Some (Inr p)" "format p = Num 0" "totalTracks p = Num 1"
    "ticksPerBeat p = Num TICKS_PER_BEAT"
    by blast
  then show ?thesis
    by (simp add: b TICKS_PER_BEAT_def)
qed

subsection \<open>C9: the order of events of equal tick\<close>

text \<open>
  C9, at a single note: \<^verbatim>\<open>typeOrder['bend']\<close> is 0, which \<^verbatim>\<open>||\<close> takes for absent, so a
  bend is ranked 99 and sorted after the Note-On of its tick. In the track the bytes
  \<^verbatim>\<open>90 45 64\<close> of the Note-On come before \<^verbatim>\<open>E0 00 40\<close> of the bend.
\<close>

theorem bend_sorted_after_note_on:
  "array_sort compareEvents (buildNoteEvents [a4_note])
     = [NoteOn 0 69 100 0, Bend 0 0 64 0, NoteOff 480 69 0 0]
   \<and> map_option (drop 389) (exportToMidiFile [a4_note] (Num 500000))
     = Some [0x00, 0x90, 0x45, 0x64, 0x00, 0xE0, 0x00, 0x40, 0x83, 0x60, 0x80, 0x45, 0x00,
             0x00, 0xFF, 0x2F, 0x00]"
  by code_simp

subsection \<open>C10: the delta times handed to the writer\<close>

lemma timedMessages_nonnegative:
  "sorted_wrt (\<lambda>a b. tick a \<le> tick b) es \<Longrightarrow> \<forall>e \<in> set es. lastTick \<le> tick e \<Longrightarrow>
     \<forall>dm \<in> set (timedMessages lastTick es). 0 \<le> fst dm"
  by (induction es arbitrary: lastTick) auto

lemma addCircle_ticks:
  assumes "0 \<le> c_startTick c \<longrightarrow> 0 \<le> c_durationTicks c"
    and "\<forall>e \<in> set (fst st). 0 \<le> tick e"
  shows "\<forall>e \<in> set (fst (addCircle c st)). 0 \<le> tick e"
  using assms by (cases st) (auto simp: addCircle_def Let_def)

lemma fold_addCircle_ticks:
  assumes "\<forall>c \<in> set circles. 0 \<le> c_startTick c \<longrightarrow> 0 \<le> c_durationTicks c"
    and "\<forall>e \<in> set (fst st). 0 \<le> tick e"
  shows "\<forall>e \<in> set (fst (fold addCircle circles st)). 0 \<le> tick e"
  using assms
proof (induction circles arbitrary: st)
  case Nil
  then show ?case by simp
next
  case (Cons c circles)
  have "\<forall>e \<in> set (fst (addCircle c st)). 0 \<le> tick e"
    using Cons.prems by (intro addCircle_ticks) simp_all
  then show ?case using Cons.prems by (simp add: Cons.IH)
qed

text \<open>
  C10 does not hold of the code: a note of start tick 0 whose duration comes out as \<open>-5\<close>
  ticks passes the guard \<^verbatim>\<open>startTick < 0\<close>; its Note-Off has tick \<open>-5\<close>, is sorted first
  and is emitted with the delta \<open>-5\<close>, for which the writer returns the single byte
  \<open>0x7B\<close>.
\<close>

theorem negative_duration_negative_delta:
  "map fst (timedMessages 0 (array_sort compareEvents
      (buildNoteEvents [a4_note\<lparr>c_durationTicks := - 5\<rparr>]))) = [- 5, 5, 0]
   \<and> writeVariableLength (- 5) = [0x7B]"
  by code_simp

text \<open>
  C10, amended: when every note that passes the guard has a duration of at least 0 ticks,
  every delta handed to \<^verbatim>\<open>writeVariableLength\<close> by the emission loop is at least 0.
\<close>

theorem deltas_nonnegative:
  assumes "\<forall>c \<in> set circles. 0 \<le> c_startTick c \<longrightarrow> 0 \<le> c_durationTicks c"
  shows "\<forall>dm \<in> set (timedMessages 0 (array_sort compareEvents (buildNoteEvents circles))).
           0 \<le> fst dm"
proof (rule timedMessages_nonnegative)
  show "sorted_wrt (\<lambda>a b. tick a \<le> tick b) (array_sort compareEvents (buildNoteEvents circles))"
    by (rule array_sort_by_tick)
  have "\<forall>e \<in> set (fst (fold addCircle circles ([], 0))). 0 \<le> tick e"
    using assms by (intro fold_addCircle_ticks) simp_all
  then show "\<forall>e \<in> set (array_sort compareEvents (buildNoteEvents circles)). 0 \<le> tick e"
    by (simp add: set_array_sort buildNoteEvents_def)
qed

theorem deltas_nonnegative_witness:
  "list_all (\<lambda>d. 0 \<le> d)
     (map fst (timedMessages 0 (array_sort compareEvents (buildNoteEvents [a4_note]))))
   \<and> map fst (timedMessages 0 (array_sort compareEvents (buildNoteEvents [a4_note])))
     = [0, 0, 480]"
proof
  have h: "\<forall>c \<in> set [a4_note]. 0 \<le> c_startTick c \<longrightarrow> 0 \<le> c_durationTicks c"
    by (simp add: a4_note_def)
  show "list_all (\<lambda>d. 0 \<le> d)
     (map fst (timedMessages 0 (array_sort compareEvents (buildNoteEvents [a4_note]))))"
    using deltas_nonnegative [OF h] by (simp add: list_all_iff)
  show "map fst (timedMessages 0 (array_sort compareEvents (buildNoteEvents [a4_note])))
     = [0, 0, 480]"
    by code_simp
qed

end
